theory Spec2Isabelle
  imports Complex_Main "HOL-Library.AList" "HOL-Library.Sublist" "HOL-Library.Word"
begin

section \<open>Python values used by the plot manager\<close>

text \<open>
  This theory embeds \<^verbatim>\<open>src/chia/plotting/manager.py\<close>: the key cache (\<^verbatim>\<open>Cache\<close>), the
  per-file pipeline (\<^verbatim>\<open>pre_process_file\<close>, \<^verbatim>\<open>process_memo\<close>, \<^verbatim>\<open>post_process_file\<close>,
  \<^verbatim>\<open>refresh_batch\<close>) and the refresh loop of \<^verbatim>\<open>PlotManager\<close>.

  Conventions of the embedding.
  \<^item> A Python \<^verbatim>\<open>dict\<close> is an association list with distinct keys in insertion order:
    \<^verbatim>\<open>d[k] = v\<close> is \<open>AList.update\<close> (replace in place, or append), \<^verbatim>\<open>del d[k]\<close> is
    \<open>AList.delete\<close>, \<^verbatim>\<open>d.get(k)\<close> and \<^verbatim>\<open>k in d\<close> read \<open>map_of\<close>.
  \<^item> \<^verbatim>\<open>time.time()\<close> is an argument \<open>now\<close> of the function that reads the clock, a real
    number of seconds; one call of a modelled function reads one instant.
  \<^item> An exception is a value: a function that can raise returns \<open>Raise e\<close> together with the
    state as it was when the exception left the function, so that every mutation made
    before the raise is kept, as in Python.
  \<^item> The worker pools are run sequentially: the files of a batch are pre-processed one after
    the other, in list order, before the batch is decoded and post-processed.
\<close>

type_synonym bytes = "8 word list"

text \<open>Only subclasses of \<^verbatim>\<open>Exception\<close> are modelled; \<^verbatim>\<open>except Exception\<close> catches all of them.\<close>

datatype exn = FileNotFoundError | OSError | ValueError | AssertionError | KeyError | RuntimeError

datatype 'a outcome = Return 'a | Raise exn

text \<open>\<^verbatim>\<open>int(x)\<close> of a float truncates towards zero.\<close>

definition py_int :: "real \<Rightarrow> int" where
  "py_int x = (if 0 \<le> x then \<lfloor>x\<rfloor> else \<lceil>x\<rceil>)"

text \<open>
  A \<^verbatim>\<open>pathlib.Path\<close> of a plot file is kept as its parent directory and its final component:
  \<^verbatim>\<open>p.parent\<close>, \<^verbatim>\<open>p.name\<close>, and \<^verbatim>\<open>Path(d) / Path(n)\<close> is \<open>Path d n\<close>. \<^verbatim>\<open>str(p)\<close> renders it.
\<close>

datatype path = Path (parent: string) (name: string)

definition str :: "path \<Rightarrow> string" where
  "str p = parent p @ ''/'' @ name p"

type_synonym G1Element = bytes
type_synonym bytes32 = bytes
type_synonym PrivateKey = bytes

section \<open>Cache records\<close>

definition CURRENT_VERSION :: nat where
  "CURRENT_VERSION = 1"

record CacheKeys =
  farmer_public_key :: G1Element
  pool_public_key :: "G1Element option"
  pool_contract_puzzle_hash :: "bytes32 option"
  plot_public_key :: G1Element

text \<open>
  The \<^verbatim>\<open>chiapos.DiskProver\<close> handle, as far as the manager reads it: \<^verbatim>\<open>get_filename()\<close>,
  \<^verbatim>\<open>get_size()\<close> (the size parameter k) and \<^verbatim>\<open>get_memo()\<close>.
\<close>

record DiskProver =
  get_filename :: path
  get_size :: nat
  get_memo :: bytes

record DiskCacheEntry =
  prover_data :: bytes
  disk_keys :: CacheKeys
  disk_last_use :: nat

text \<open>
  \<^verbatim>\<open>DiskCache.data\<close> is a list of \<^verbatim>\<open>(str(path), entry)\<close>; the string is kept as the path it
  renders (\<^verbatim>\<open>Path(str(p)) == p\<close> in pathlib).
\<close>

record DiskCache =
  version :: nat
  disk_data :: "(path \<times> DiskCacheEntry) list"

record CacheEntry =
  prover :: DiskProver
  keys :: CacheKeys
  last_use :: real

definition bump_last_use :: "real \<Rightarrow> CacheEntry \<Rightarrow> CacheEntry" where
  "bump_last_use now e = e\<lparr>last_use := now\<rparr>"

definition expired :: "real \<Rightarrow> CacheEntry \<Rightarrow> int \<Rightarrow> bool" where
  "expired now e expiry_seconds = (now - last_use e > of_int expiry_seconds)"

text \<open>
  \<^verbatim>\<open>Cache\<close>: the dirty flag, the dictionary, and \<open>cache_file\<close>, what \<^verbatim>\<open>self._path.read_bytes()\<close>
  gives at the moment: the content of the file at \<^verbatim>\<open>_path\<close>, or the exception it raises
  (\<open>FileNotFoundError\<close> when there is no file).
\<close>

record Cache =
  changed :: bool
  data :: "(path \<times> CacheEntry) list"
  cache_file :: "exn + bytes"

definition expiry_seconds :: int where
  "expiry_seconds = 7 * 24 * 60 * 60"

definition Cache_init :: "exn + bytes \<Rightarrow> Cache" where
  "Cache_init f = \<lparr>changed = False, data = [], cache_file = f\<rparr>"

definition Cache_update :: "path \<Rightarrow> CacheEntry \<Rightarrow> Cache \<Rightarrow> Cache" where
  "Cache_update p entry c = c\<lparr>data := AList.update p entry (data c), changed := True\<rparr>"

fun Cache_remove :: "path list \<Rightarrow> Cache \<Rightarrow> Cache" where
  "Cache_remove [] c = c"
| "Cache_remove (key # cache_keys) c =
     Cache_remove cache_keys
       (if key \<in> dom (map_of (data c))
        then c\<lparr>data := AList.delete key (data c), changed := True\<rparr> else c)"

definition Cache_get :: "path \<Rightarrow> Cache \<Rightarrow> CacheEntry option" where
  "Cache_get p c = map_of (data c) p"

section \<open>External collaborators\<close>

record stat_result =
  st_size :: nat
  st_mtime :: real

datatype PlotInfo =
  PlotInfo DiskProver "G1Element option" "bytes32 option" G1Element nat real

text \<open>
  \<^verbatim>\<open>PlotRefreshResult\<close> of \<^verbatim>\<open>chia.plotting.util\<close>; its \<^verbatim>\<open>duration\<close>, a sum of clock
  differences that nothing reads back, is left out.
\<close>

record PlotRefreshResult =
  loaded :: "PlotInfo list"
  removed :: "path list"
  processed :: nat
  remaining :: nat

definition PlotRefreshResult_init :: PlotRefreshResult where
  "PlotRefreshResult_init = \<lparr>loaded = [], removed = [], processed = 0, remaining = 0\<rparr>"

datatype PlotRefreshEvents = Started | Batch_processed | Done

record PlotsRefreshParameter =
  interval_seconds :: int
  retry_invalid_seconds :: int
  batch_size :: int

text \<open>What \<^verbatim>\<open>parse_plot_info\<close> returns first: a pool public key or a pool contract puzzle hash.\<close>

datatype pool_key_or_hash = PoolKey G1Element | PuzzleHash bytes32

text \<open>
  Everything the manager calls that is not in \<^verbatim>\<open>manager.py\<close> is a field of the
  environment:
  \<^item> \<open>get_plot_filenames\<close>: the directory listing, a dictionary from directory to its plot
    files, or the exception the listing raises;
  \<^item> \<open>stat\<close> and \<open>open_prover\<close>: \<^verbatim>\<open>file_path.stat()\<close> and what \<^verbatim>\<open>DiskProver(str(file_path))\<close>
    reads from the file (size parameter and memo), or the exception either raises;
  \<^item> \<open>expected_plot_size\<close> and \<open>UI_ACTUAL_SPACE_CONSTANT_FACTOR\<close> of
    \<^verbatim>\<open>chia.consensus.pos_quality\<close>;
  \<^item> \<open>parse_plot_info\<close>, \<open>master_sk_to_local_sk\<close>, \<open>get_g1\<close>, \<open>generate_plot_public_key\<close>:
    the key derivation; parsing the memo is the step that can raise;
  \<^item> \<open>refresh_callback\<close>: the observer, which returns or raises;
  \<^item> \<open>write_bytes\<close>: whether writing the cache file raises;
  \<^item> the \<^verbatim>\<open>Streamable\<close> encoding of \<^verbatim>\<open>DiskCache\<close> and the byte form of a prover.
\<close>

record env =
  get_plot_filenames :: "exn + (string \<times> path list) list"
  stat :: "path \<Rightarrow> exn + stat_result"
  open_prover :: "path \<Rightarrow> exn + (nat \<times> bytes)"
  expected_plot_size :: "nat \<Rightarrow> nat"
  UI_ACTUAL_SPACE_CONSTANT_FACTOR :: real
  parse_plot_info :: "bytes \<Rightarrow> exn + (pool_key_or_hash \<times> G1Element \<times> PrivateKey)"
  master_sk_to_local_sk :: "PrivateKey \<Rightarrow> PrivateKey"
  get_g1 :: "PrivateKey \<Rightarrow> G1Element"
  generate_plot_public_key :: "G1Element \<Rightarrow> G1Element \<Rightarrow> bool \<Rightarrow> G1Element"
  refresh_callback :: "PlotRefreshEvents \<Rightarrow> PlotRefreshResult \<Rightarrow> exn option"
  write_bytes :: "bytes \<Rightarrow> exn option"
  DiskCache_to_bytes :: "DiskCache \<Rightarrow> bytes"
  DiskCache_from_bytes :: "bytes \<Rightarrow> exn + DiskCache"
  prover_to_bytes :: "DiskProver \<Rightarrow> bytes"
  prover_from_bytes :: "bytes \<Rightarrow> exn + DiskProver"

text \<open>\<^verbatim>\<open>DiskProver(str(file_path))\<close>: the handle keeps the file name it was opened with.\<close>

definition DiskProver_open :: "env \<Rightarrow> path \<Rightarrow> exn + DiskProver" where
  "DiskProver_open env file_path =
     (case open_prover env file_path of
        Inl e \<Rightarrow> Inl e
      | Inr (k, memo) \<Rightarrow> Inr \<lparr>get_filename = file_path, get_size = k, get_memo = memo\<rparr>)"

text \<open>
  Evaluating a function on every element of a list in order, stopping at the first
  exception: a comprehension whose element expression can raise, and
  \<^verbatim>\<open>Pool.starmap\<close>, which re-raises in the caller what a worker raised.
\<close>

fun traverse :: "('a \<Rightarrow> exn + 'b) \<Rightarrow> 'a list \<Rightarrow> exn + 'b list" where
  "traverse f [] = Inr []"
| "traverse f (x # xs) =
     (case f x of
        Inl e \<Rightarrow> Inl e
      | Inr y \<Rightarrow> (case traverse f xs of Inl e \<Rightarrow> Inl e | Inr ys \<Rightarrow> Inr (y # ys)))"

definition starmap :: "('a \<Rightarrow> exn + 'b) \<Rightarrow> 'a list \<Rightarrow> exn + 'b list" where
  "starmap f args = traverse f args"

text \<open>The dictionary a comprehension builds from its (key, value) pairs, in order.\<close>

definition dict_of :: "('k \<times> 'v) list \<Rightarrow> ('k \<times> 'v) list" where
  "dict_of xs = foldl (\<lambda>d (k, v). AList.update k v d) [] xs"

section \<open>Cache.save and Cache.load\<close>

text \<open>
  Modelled from the spec: the integer types of \<^verbatim>\<open>chia.util.ints\<close> are not among the source
  files. \<^verbatim>\<open>uint64(v)\<close> raises when \<open>v\<close> does not fit 64 unsigned bits; the persisted cache file
  starts with \<^verbatim>\<open>version: u16\<close>, which \<^verbatim>\<open>uint16.from_bytes\<close> reads from exactly two bytes (big
  endian) and fails on anything shorter.
\<close>

definition uint64 :: "int \<Rightarrow> exn + nat" where
  "uint64 v = (if 0 \<le> v \<and> v < 2 ^ 64 then Inr (nat v) else Inl ValueError)"

definition uint16_from_bytes :: "bytes \<Rightarrow> exn + nat" where
  "uint16_from_bytes blob =
     (case blob of [hi, lo] \<Rightarrow> Inr (256 * unat hi + unat lo) | _ \<Rightarrow> Inl AssertionError)"

definition to_disk_entry :: "env \<Rightarrow> path \<times> CacheEntry \<Rightarrow> exn + (path \<times> DiskCacheEntry)" where
  "to_disk_entry env item =
     (case item of (p, cache_entry) \<Rightarrow>
        (case uint64 (py_int (last_use cache_entry)) of
           Inl e \<Rightarrow> Inl e
         | Inr t \<Rightarrow>
             Inr (p, \<lparr>prover_data = prover_to_bytes env (prover cache_entry),
                      disk_keys = keys cache_entry, disk_last_use = t\<rparr>)))"

text \<open>
  The body of the \<^verbatim>\<open>try\<close> in \<^verbatim>\<open>save\<close>. A failed write is taken to leave the file as it
  was.
\<close>

definition Cache_save_try :: "env \<Rightarrow> Cache \<Rightarrow> exn + Cache" where
  "Cache_save_try env c =
     (case traverse (to_disk_entry env) (data c) of
        Inl e \<Rightarrow> Inl e
      | Inr entries \<Rightarrow>
          (let disk_cache_entries = dict_of entries;
               disk_cache = \<lparr>version = CURRENT_VERSION, disk_data = disk_cache_entries\<rparr>;
               serialized = DiskCache_to_bytes env disk_cache
           in case write_bytes env serialized of
                Some e \<Rightarrow> Inl e
              | None \<Rightarrow> Inr (c\<lparr>cache_file := Inr serialized, changed := False\<rparr>)))"

definition Cache_save :: "env \<Rightarrow> Cache \<Rightarrow> exn + Cache" where
  "Cache_save env c = (case Cache_save_try env c of Inl e \<Rightarrow> Inr c | Inr c' \<Rightarrow> Inr c')"

text \<open>
  What \<^verbatim>\<open>save\<close> builds for a cache whose time stamps fit \<^verbatim>\<open>uint64\<close>: every entry with the
  bytes of its prover, its keys and its time stamp cut to whole seconds.
\<close>

definition snapshot :: "env \<Rightarrow> Cache \<Rightarrow> DiskCache" where
  "snapshot env c =
     \<lparr>version = CURRENT_VERSION,
      disk_data =
        map (\<lambda>(p, e). (p, \<lparr>prover_data = prover_to_bytes env (prover e), disk_keys = keys e,
                              disk_last_use = nat \<lfloor>last_use e\<rfloor>\<rparr>))
          (data c)\<rparr>"

definition from_disk_entry :: "env \<Rightarrow> path \<times> DiskCacheEntry \<Rightarrow> exn + (path \<times> CacheEntry)" where
  "from_disk_entry env item =
     (case item of (p, cache_entry) \<Rightarrow>
        (case prover_from_bytes env (prover_data cache_entry) of
           Inl e \<Rightarrow> Inl e
         | Inr pr \<Rightarrow>
             Inr (p, \<lparr>prover = pr, keys = disk_keys cache_entry,
                      last_use = of_nat (disk_last_use cache_entry)\<rparr>)))"

definition Cache_load_try :: "env \<Rightarrow> Cache \<Rightarrow> exn + Cache" where
  "Cache_load_try env c =
     (case cache_file c of
        Inl e \<Rightarrow> Inl e
      | Inr serialized \<Rightarrow>
          (case uint16_from_bytes (take 2 serialized) of
             Inl e \<Rightarrow> Inl e
           | Inr v \<Rightarrow>
               if v = CURRENT_VERSION then
                 (case DiskCache_from_bytes env serialized of
                    Inl e \<Rightarrow> Inl e
                  | Inr stored_cache \<Rightarrow>
                      (case traverse (from_disk_entry env) (disk_data stored_cache) of
                         Inl e \<Rightarrow> Inl e
                       | Inr entries \<Rightarrow> Inr (c\<lparr>data := dict_of entries\<rparr>)))
               else Inl ValueError))"

text \<open>
  \<^verbatim>\<open>load\<close>: \<^verbatim>\<open>except FileNotFoundError\<close> logs at debug level, \<^verbatim>\<open>except Exception\<close> logs an
  error; neither handler touches the cache.
\<close>

definition Cache_load :: "env \<Rightarrow> Cache \<Rightarrow> exn + Cache" where
  "Cache_load env c =
     (case Cache_load_try env c of
        Inl FileNotFoundError \<Rightarrow> Inr c
      | Inl e \<Rightarrow> Inr c
      | Inr c' \<Rightarrow> Inr c')"

section \<open>PlotManager: state and simple operations\<close>

text \<open>
  The attributes of \<^verbatim>\<open>PlotManager\<close> that the refresh engine reads or writes. A value of
  \<^verbatim>\<open>plot_filename_paths\<close> is the pair of the directory of the loaded file and the set of the
  other directories holding a file of that name; the set is kept as a list without
  repetitions, in insertion order, since the manager iterates over it.
  \<open>refresh_thread_alive\<close> says whether \<^verbatim>\<open>_refresh_thread\<close> is a live thread.
\<close>

record PlotManager =
  plots :: "(path \<times> PlotInfo) list"
  plot_filename_paths :: "(string \<times> (string \<times> string list)) list"
  failed_to_open_filenames :: "(path \<times> int) list"
  no_key_filenames :: "path set"
  farmer_public_keys :: "G1Element list"
  pool_public_keys :: "G1Element list"
  cache :: Cache
  match_str :: "string option"
  open_no_key_filenames :: bool
  last_refresh_time :: real
  refresh_parameter :: PlotsRefreshParameter
  refresh_thread_alive :: bool
  refreshing_enabled :: bool
  initial :: bool

definition PlotManager_init ::
  "exn + bytes \<Rightarrow> string option \<Rightarrow> bool \<Rightarrow> PlotsRefreshParameter \<Rightarrow> PlotManager" where
  "PlotManager_init f match open_no_key parameter =
     \<lparr>plots = [], plot_filename_paths = [], failed_to_open_filenames = [],
      no_key_filenames = {}, farmer_public_keys = [], pool_public_keys = [],
      cache = Cache_init f, match_str = match, open_no_key_filenames = open_no_key,
      last_refresh_time = 0, refresh_parameter = parameter, refresh_thread_alive = False,
      refreshing_enabled = False, initial = True\<rparr>"

definition reset :: "real \<Rightarrow> PlotManager \<Rightarrow> PlotManager" where
  "reset now m =
     m\<lparr>last_refresh_time := now, plots := [], plot_filename_paths := [],
       failed_to_open_filenames := [], no_key_filenames := {}, initial := True\<rparr>"

definition set_public_keys :: "G1Element list \<Rightarrow> G1Element list \<Rightarrow> PlotManager \<Rightarrow> PlotManager" where
  "set_public_keys farmer_keys pool_keys m =
     m\<lparr>farmer_public_keys := farmer_keys, pool_public_keys := pool_keys\<rparr>"

definition get_duplicates :: "PlotManager \<Rightarrow> path list" where
  "get_duplicates m =
     concat (map (\<lambda>(plot_filename, paths_entry).
                    map (\<lambda>p. Path p plot_filename) (snd paths_entry))
                 (plot_filename_paths m))"

definition needs_refresh :: "real \<Rightarrow> PlotManager \<Rightarrow> bool" where
  "needs_refresh now m =
     (now - last_refresh_time m > of_int (interval_seconds (refresh_parameter m)))"

definition trigger_refresh :: "PlotManager \<Rightarrow> PlotManager" where
  "trigger_refresh m = m\<lparr>last_refresh_time := 0\<rparr>"

text \<open>
  \<^verbatim>\<open>start_refreshing\<close> loads the cache and starts the thread when no thread is alive;
  \<^verbatim>\<open>stop_refreshing\<close> clears the flag and joins the thread.
\<close>

definition start_refreshing :: "env \<Rightarrow> PlotManager \<Rightarrow> exn + PlotManager" where
  "start_refreshing env m =
     (let m1 = m\<lparr>refreshing_enabled := True\<rparr> in
      if \<not> refresh_thread_alive m1 then
        (case Cache_load env (cache m1) of
           Inl e \<Rightarrow> Inl e
         | Inr c \<Rightarrow> Inr (m1\<lparr>cache := c, refresh_thread_alive := True\<rparr>))
      else Inr m1)"

definition stop_refreshing :: "PlotManager \<Rightarrow> PlotManager" where
  "stop_refreshing m = m\<lparr>refreshing_enabled := False, refresh_thread_alive := False\<rparr>"

section \<open>Pre-processing\<close>

record PreProcessingResult =
  result_path :: path
  result_cache_entry :: "CacheEntry option"
  result_stat_info :: "stat_result option"
  result_prover :: "DiskProver option"

definition PreProcessingResult_init :: "path \<Rightarrow> PreProcessingResult" where
  "PreProcessingResult_init file_path =
     \<lparr>result_path = file_path, result_cache_entry = None, result_stat_info = None,
      result_prover = None\<rparr>"

text \<open>The \<^verbatim>\<open>try\<close> of \<^verbatim>\<open>pre_process_file\<close>: \<^verbatim>\<open>stat()\<close>, then opening the prover.\<close>

definition stat_and_open :: "env \<Rightarrow> path \<Rightarrow> exn + (stat_result \<times> DiskProver)" where
  "stat_and_open env file_path =
     (case stat env file_path of
        Inl e \<Rightarrow> Inl e
      | Inr stat_info \<Rightarrow>
          (case DiskProver_open env file_path of
             Inl e \<Rightarrow> Inl e
           | Inr pr \<Rightarrow> Inr (stat_info, pr)))"

definition pre_process_file ::
  "env \<Rightarrow> real \<Rightarrow> path \<Rightarrow> PlotManager \<Rightarrow> PreProcessingResult \<times> PlotManager" where
  "pre_process_file env now file_path m =
     (let result = PreProcessingResult_init file_path in
      if \<not> refreshing_enabled m then (result, m)
      else if (case match_str m of None \<Rightarrow> False | Some s \<Rightarrow> \<not> sublist s (str file_path))
      then (result, m)
      else if (case map_of (failed_to_open_filenames m) file_path of
                 None \<Rightarrow> False
               | Some t \<Rightarrow> now - of_int t < of_int (retry_invalid_seconds (refresh_parameter m)))
      then (result, m)
      else if file_path \<in> dom (map_of (plots m)) then (result, m)
      else if (case map_of (plot_filename_paths m) (name file_path) of
                 None \<Rightarrow> False
               | Some (loaded_parent, duplicates) \<Rightarrow> parent file_path \<in> set duplicates)
      then (result, m)
      else
        (case stat_and_open env file_path of
           Inl e \<Rightarrow>
             (result,
              m\<lparr>failed_to_open_filenames :=
                  AList.update file_path (py_int now) (failed_to_open_filenames m)\<rparr>)
         | Inr (stat_info, pr) \<Rightarrow>
             (let expected_size =
                    of_nat (expected_plot_size env (get_size pr)) * UI_ACTUAL_SPACE_CONSTANT_FACTOR env
              in if get_size pr \<ge> 30 \<and> of_nat (st_size stat_info) < 0.98 * expected_size
                 then (result, m)
                 else
                   (result\<lparr>result_cache_entry := Cache_get file_path (cache m),
                           result_stat_info := Some stat_info,
                           result_prover := Some pr\<rparr>, m))))"

text \<open>
  Modelled from the spec: \<^verbatim>\<open>list_to_batches\<close> of \<^verbatim>\<open>chia.util.generator_tools\<close> is not among
  the source files. The candidates are split into batches of the fixed size, each paired
  with the number of candidates that remain after it; a batch size that is not positive
  is refused.
\<close>

definition list_to_batches :: "'a list \<Rightarrow> int \<Rightarrow> exn + (nat \<times> 'a list) list" where
  "list_to_batches list_to_split batch_sz =
     (if batch_sz \<le> 0 then Inl ValueError
      else
        (let total_size = length list_to_split; n = nat batch_sz in
         Inr (map (\<lambda>i. (total_size - min (i * n + n) total_size,
                         take n (drop (i * n) list_to_split)))
                  [0 ..< (total_size + n - 1) div n])))"

text \<open>
  The futures of one batch, run in list order. A task reads and writes only the entries
  of its own path in the registries.
\<close>

fun pre_process_batch ::
  "env \<Rightarrow> real \<Rightarrow> path list \<Rightarrow> PlotManager \<Rightarrow> PreProcessingResult list \<times> PlotManager" where
  "pre_process_batch env now [] m = ([], m)"
| "pre_process_batch env now (file_path # batch) m =
     (case pre_process_file env now file_path m of
        (r, m1) \<Rightarrow>
          (case pre_process_batch env now batch m1 of
             (rs, m2) \<Rightarrow> (r # rs, m2)))"

section \<open>Decoding\<close>

text \<open>
  \<^verbatim>\<open>process_memo\<close> has no \<^verbatim>\<open>try\<close>: what \<^verbatim>\<open>parse_plot_info\<close> raises leaves the function.
  The second component of the result is \<^verbatim>\<open>bytes(keys)\<close>, kept as the keys it encodes
  (\<^verbatim>\<open>CacheKeys.from_bytes\<close> reads them back); \<open>None\<close> is Python's \<^verbatim>\<open>None\<close>, which
  \<^verbatim>\<open>refresh_batch\<close> tests for.
\<close>

definition process_memo :: "env \<Rightarrow> path \<times> bytes \<Rightarrow> exn + (path \<times> CacheKeys option)" where
  "process_memo env arg =
     (case arg of (file_path, memo) \<Rightarrow>
        (case parse_plot_info env memo of
           Inl e \<Rightarrow> Inl e
         | Inr (pool_public_key_or_puzzle_hash, farmer_pk, local_master_sk) \<Rightarrow>
             (let pool_pk = (case pool_public_key_or_puzzle_hash of
                               PoolKey k \<Rightarrow> Some k | PuzzleHash h \<Rightarrow> None);
                  pool_ph = (case pool_public_key_or_puzzle_hash of
                               PoolKey k \<Rightarrow> None | PuzzleHash h \<Rightarrow> Some h);
                  local_sk = master_sk_to_local_sk env local_master_sk;
                  plot_pk = generate_plot_public_key env (get_g1 env local_sk) farmer_pk
                              (pool_ph \<noteq> None);
                  cache_keys = \<lparr>farmer_public_key = farmer_pk, pool_public_key = pool_pk,
                                pool_contract_puzzle_hash = pool_ph, plot_public_key = plot_pk\<rparr>
              in Inr (file_path, Some cache_keys))))"

section \<open>Post-processing\<close>

definition set_add :: "'a \<Rightarrow> 'a list \<Rightarrow> 'a list" where
  "set_add x xs = (if x \<in> set xs then xs else xs @ [x])"

text \<open>
  \<^verbatim>\<open>cache_entry.bump_last_use()\<close> writes to the object that both callers took from, or just
  stored in, the cache under \<^verbatim>\<open>file_path\<close>: the entry of the cache under that key changes.
\<close>

definition post_process_file ::
  "real \<Rightarrow> path \<Rightarrow> stat_result \<Rightarrow> CacheEntry \<Rightarrow> PlotManager \<Rightarrow> PlotInfo option \<times> PlotManager" where
  "post_process_file now file_path stat_info cache_entry m =
     (let farmer_missing = farmer_public_key (keys cache_entry) \<notin> set (farmer_public_keys m);
          m1 = (if farmer_missing
                then m\<lparr>no_key_filenames := insert file_path (no_key_filenames m)\<rparr> else m)
      in if farmer_missing \<and> \<not> open_no_key_filenames m then (None, m1)
         else
           (let pool_missing = (case pool_public_key (keys cache_entry) of
                                  None \<Rightarrow> False
                                | Some pk \<Rightarrow> pk \<notin> set (pool_public_keys m));
                m2 = (if pool_missing
                      then m1\<lparr>no_key_filenames := insert file_path (no_key_filenames m1)\<rparr>
                      else m1)
            in if pool_missing \<and> \<not> open_no_key_filenames m then (None, m2)
               else
                 (let m3 = m2\<lparr>no_key_filenames := no_key_filenames m2 - {file_path}\<rparr>;
                      directory = parent (get_filename (prover cache_entry))
                  in case map_of (plot_filename_paths m3) (name file_path) of
                       Some (loaded_parent, duplicates) \<Rightarrow>
                         (None,
                          m3\<lparr>plot_filename_paths :=
                               AList.update (name file_path)
                                 (loaded_parent, set_add directory duplicates)
                                 (plot_filename_paths m3)\<rparr>)
                     | None \<Rightarrow>
                         (let m4 = m3\<lparr>plot_filename_paths :=
                                        AList.update (name file_path) (directory, [])
                                          (plot_filename_paths m3)\<rparr>;
                              new_plot_info =
                                PlotInfo (prover cache_entry)
                                  (pool_public_key (keys cache_entry))
                                  (pool_contract_puzzle_hash (keys cache_entry))
                                  (plot_public_key (keys cache_entry))
                                  (st_size stat_info) (st_mtime stat_info);
                              m5 = m4\<lparr>cache := (cache m4)\<lparr>data :=
                                        AList.map_entry file_path (bump_last_use now)
                                          (data (cache m4))\<rparr>\<rparr>;
                              m6 = m5\<lparr>failed_to_open_filenames :=
                                        AList.delete file_path (failed_to_open_filenames m5)\<rparr>
                          in (Some new_plot_info, m6)))))"

section \<open>refresh_batch\<close>

text \<open>The local variables of \<^verbatim>\<open>refresh_batch\<close> that its two loops fill.\<close>

record batch_locals =
  process_args :: "(path \<times> bytes) list"
  stat_infos :: "(path \<times> stat_result) list"
  provers :: "(path \<times> DiskProver) list"
  plots_refreshed :: "(path \<times> PlotInfo) list"
  result_loaded :: "PlotInfo list"

definition batch_locals_init :: batch_locals where
  "batch_locals_init =
     \<lparr>process_args = [], stat_infos = [], provers = [], plots_refreshed = [],
      result_loaded = []\<rparr>"

definition add_refreshed :: "path \<Rightarrow> PlotInfo \<Rightarrow> batch_locals \<Rightarrow> batch_locals" where
  "add_refreshed p new_plot_info l =
     l\<lparr>plots_refreshed := AList.update p new_plot_info (plots_refreshed l),
       result_loaded := result_loaded l @ [new_plot_info]\<rparr>"

text \<open>The first loop: cache hits are post-processed, cache misses are queued for decoding.\<close>

fun collect ::
  "real \<Rightarrow> PreProcessingResult list \<Rightarrow> batch_locals \<Rightarrow> PlotManager
     \<Rightarrow> exn option \<times> batch_locals \<times> PlotManager" where
  "collect now [] l m = (None, l, m)"
| "collect now (pre_result # rest) l m =
     (case result_stat_info pre_result of
        None \<Rightarrow> collect now rest l m
      | Some stat_info \<Rightarrow>
          (case result_cache_entry pre_result of
             None \<Rightarrow>
               (case result_prover pre_result of
                  None \<Rightarrow> (Some AssertionError, l, m)
                | Some pr \<Rightarrow>
                    collect now rest
                      (l\<lparr>process_args := process_args l @ [(result_path pre_result, get_memo pr)],
                         stat_infos := AList.update (result_path pre_result) stat_info (stat_infos l),
                         provers := AList.update (result_path pre_result) pr (provers l)\<rparr>)
                      m)
           | Some cache_entry \<Rightarrow>
               (case post_process_file now (result_path pre_result) stat_info cache_entry m of
                  (None, m1) \<Rightarrow> collect now rest l m1
                | (Some new_plot_info, m1) \<Rightarrow>
                    collect now rest (add_refreshed (result_path pre_result) new_plot_info l) m1)))"

text \<open>The second loop, over the results of the bulk decoding.\<close>

fun apply_memos ::
  "real \<Rightarrow> (path \<times> CacheKeys option) list \<Rightarrow> batch_locals \<Rightarrow> PlotManager
     \<Rightarrow> exn option \<times> batch_locals \<times> PlotManager" where
  "apply_memos now [] l m = (None, l, m)"
| "apply_memos now ((p, result_bytes) # rest) l m =
     (case result_bytes of
        None \<Rightarrow>
          apply_memos now rest l
            (m\<lparr>failed_to_open_filenames :=
                 AList.update p (py_int now) (failed_to_open_filenames m)\<rparr>)
      | Some cache_keys \<Rightarrow>
          (case map_of (provers l) p of
             None \<Rightarrow> (Some KeyError, l, m)
           | Some pr \<Rightarrow>
               (let cache_entry = \<lparr>prover = pr, keys = cache_keys, last_use = now\<rparr>;
                    m1 = m\<lparr>cache := Cache_update p cache_entry (cache m)\<rparr>
                in case map_of (stat_infos l) p of
                     None \<Rightarrow> (Some KeyError, l, m1)
                   | Some stat_info \<Rightarrow>
                       (case post_process_file now p stat_info cache_entry m1 of
                          (None, m2) \<Rightarrow> apply_memos now rest l m2
                        | (Some new_plot_info, m2) \<Rightarrow>
                            apply_memos now rest (add_refreshed p new_plot_info l) m2))))"

text \<open>\<^verbatim>\<open>d.update(other)\<close>: every item of \<open>other\<close> is stored in \<open>d\<close>, in order.\<close>

definition dict_update :: "('k \<times> 'v) list \<Rightarrow> ('k \<times> 'v) list \<Rightarrow> ('k \<times> 'v) list" where
  "dict_update d other = foldl (\<lambda>d (k, v). AList.update k v d) d other"

definition refresh_batch ::
  "env \<Rightarrow> real \<Rightarrow> PreProcessingResult list \<Rightarrow> PlotManager
     \<Rightarrow> PlotRefreshResult outcome \<times> PlotManager" where
  "refresh_batch env now pre_processing_results m =
     (case collect now pre_processing_results batch_locals_init m of
        (Some e, l1, m1) \<Rightarrow> (Raise e, m1)
      | (None, l1, m1) \<Rightarrow>
          (case starmap (process_memo env) (process_args l1) of
             Inl e \<Rightarrow> (Raise e, m1)
           | Inr process_memos_results \<Rightarrow>
               (case apply_memos now process_memos_results l1 m1 of
                  (Some e, l2, m2) \<Rightarrow> (Raise e, m2)
                | (None, l2, m2) \<Rightarrow>
                    (Return \<lparr>loaded = result_loaded l2, removed = [],
                             processed = length pre_processing_results, remaining = 0\<rparr>,
                     m2\<lparr>plots := dict_update (plots m2) (plots_refreshed l2)\<rparr>))))"

section \<open>The refresh cycle\<close>

text \<open>\<^verbatim>\<open>for k in ks: del d[k]\<close>, for keys that are present.\<close>

definition del_keys :: "'k list \<Rightarrow> ('k \<times> 'v) list \<Rightarrow> ('k \<times> 'v) list" where
  "del_keys ks d = fold AList.delete ks d"

text \<open>
  The loop over \<^verbatim>\<open>plot_filename_paths.items()\<close> under the lock. It returns the file names
  to remove, the entries with their duplicate sets pruned in place, the plot map and the
  paths reported as removed.
\<close>

fun drop_missing ::
  "path list \<Rightarrow> (string \<times> (string \<times> string list)) list \<Rightarrow> (path \<times> PlotInfo) list \<Rightarrow> path list
     \<Rightarrow> string list \<times> (string \<times> (string \<times> string list)) list \<times> (path \<times> PlotInfo) list \<times> path list" where
  "drop_missing plot_paths [] pl rm = ([], [], pl, rm)"
| "drop_missing plot_paths ((plot_filename, paths_entry) # rest) pl rm =
     (case paths_entry of (loaded_path, duplicated_paths) \<Rightarrow>
        (let loaded_plot = Path loaded_path plot_filename in
         if loaded_plot \<notin> set plot_paths then
           (case drop_missing plot_paths rest (AList.delete loaded_plot pl) (rm @ [loaded_plot]) of
              (filenames_to_remove, entries, pl1, rm1) \<Rightarrow>
                (plot_filename # filenames_to_remove,
                 (plot_filename, paths_entry) # entries, pl1, rm1))
         else
           (let paths_to_remove =
                  filter (\<lambda>p. Path p plot_filename \<notin> set plot_paths) duplicated_paths;
                rm0 = rm @ map (\<lambda>p. Path p plot_filename) paths_to_remove;
                remaining_paths = filter (\<lambda>p. p \<notin> set paths_to_remove) duplicated_paths
            in case drop_missing plot_paths rest pl rm0 of
                 (filenames_to_remove, entries, pl1, rm1) \<Rightarrow>
                   (filenames_to_remove,
                    (plot_filename, (loaded_path, remaining_paths)) # entries, pl1, rm1))))"

text \<open>
  The loop over the batches. \<^verbatim>\<open>batch_result.remaining\<close> is set before the callback sees
  it; the loop ends at the batch that leaves nothing, or when refreshing was disabled.
\<close>

fun batch_loop ::
  "env \<Rightarrow> real \<Rightarrow> (nat \<times> path list) list \<Rightarrow> PlotRefreshResult \<Rightarrow> PlotManager
     \<Rightarrow> PlotRefreshResult outcome \<times> PlotManager" where
  "batch_loop env now [] total_result m = (Return total_result, m)"
| "batch_loop env now ((remaining_files, batch) # rest) total_result m =
     (case pre_process_batch env now batch m of
        (pre_processing_results, m1) \<Rightarrow>
          (case refresh_batch env now pre_processing_results m1 of
             (Raise e, m2) \<Rightarrow> (Raise e, m2)
           | (Return batch_result, m2) \<Rightarrow>
               if \<not> refreshing_enabled m2 then (Return total_result, m2)
               else
                 (let reported = batch_result\<lparr>remaining := remaining_files\<rparr>;
                      total1 = total_result\<lparr>loaded := loaded total_result @ loaded reported,
                                 processed := processed total_result + processed reported\<rparr>
                  in case refresh_callback env Batch_processed reported of
                       Some e \<Rightarrow> (Raise e, m2)
                     | None \<Rightarrow>
                         if remaining_files = 0 then (Return total1, m2)
                         else batch_loop env now rest total1 m2)))"

text \<open>The cache clean-up at the end of a cycle: the paths to remove and the items, bumped.\<close>

fun cleanup_loop ::
  "real \<Rightarrow> (path \<times> PlotInfo) list \<Rightarrow> (path \<times> CacheEntry) list
     \<Rightarrow> path list \<times> (path \<times> CacheEntry) list" where
  "cleanup_loop now pl [] = ([], [])"
| "cleanup_loop now pl ((p, cache_entry) # rest) =
     (case cleanup_loop now pl rest of
        (remove_paths, items) \<Rightarrow>
          if expired now cache_entry expiry_seconds \<and> p \<notin> dom (map_of pl)
          then (p # remove_paths, (p, cache_entry) # items)
          else if p \<in> dom (map_of pl)
          then (remove_paths, (p, bump_last_use now cache_entry) # items)
          else (remove_paths, (p, cache_entry) # items))"

definition cleanup_cache :: "real \<Rightarrow> (path \<times> PlotInfo) list \<Rightarrow> Cache \<Rightarrow> Cache" where
  "cleanup_cache now pl c =
     (case cleanup_loop now pl (data c) of
        (remove_paths, items) \<Rightarrow> Cache_remove remove_paths (c\<lparr>data := items\<rparr>))"

text \<open>
  The body of the \<^verbatim>\<open>try\<close> in \<^verbatim>\<open>_refresh_task\<close>, from the directory listing on. The result
  is the \<^verbatim>\<open>total_result\<close> of the cycle.
\<close>

definition refresh_cycle ::
  "env \<Rightarrow> real \<Rightarrow> PlotManager \<Rightarrow> PlotRefreshResult outcome \<times> PlotManager" where
  "refresh_cycle env now m =
     (case get_plot_filenames env of
        Inl e \<Rightarrow> (Raise e, m)
      | Inr plot_filenames \<Rightarrow>
          (let plot_paths = concat (map snd plot_filenames);
               total_size = length plot_paths
           in case refresh_callback env Started (PlotRefreshResult_init\<lparr>remaining := total_size\<rparr>) of
                Some e \<Rightarrow> (Raise e, m)
              | None \<Rightarrow>
                  (let m1 = m\<lparr>failed_to_open_filenames :=
                                 del_keys (filter (\<lambda>p. p \<notin> set plot_paths)
                                             (map fst (failed_to_open_filenames m)))
                                   (failed_to_open_filenames m),
                               no_key_filenames :=
                                 {p \<in> no_key_filenames m. p \<in> set plot_paths}\<rparr>
                   in case drop_missing plot_paths (plot_filename_paths m1) (plots m1) [] of
                        (filenames_to_remove, entries, pl, rm) \<Rightarrow>
                          (let m2 = m1\<lparr>plots := pl,
                                       plot_filename_paths := del_keys filenames_to_remove entries\<rparr>;
                               total_result = PlotRefreshResult_init\<lparr>removed := rm\<rparr>
                           in case list_to_batches plot_paths (batch_size (refresh_parameter m2)) of
                                Inl e \<Rightarrow> (Raise e, m2)
                              | Inr batches \<Rightarrow>
                                  (case batch_loop env now batches total_result m2 of
                                     (Raise e, m3) \<Rightarrow> (Raise e, m3)
                                   | (Return total1, m3) \<Rightarrow>
                                       (case (if refreshing_enabled m3
                                              then refresh_callback env Done total1 else None) of
                                          Some e \<Rightarrow> (Raise e, m3)
                                        | None \<Rightarrow>
                                            (let m4 = m3\<lparr>initial := False\<rparr>;
                                                 m5 = m4\<lparr>cache := cleanup_cache now (plots m4) (cache m4)\<rparr>
                                             in case (if changed (cache m5)
                                                      then Cache_save env (cache m5)
                                                      else Inr (cache m5)) of
                                                  Inl e \<Rightarrow> (Raise e, m5)
                                                | Inr c \<Rightarrow>
                                                    (Return total1,
                                                     m5\<lparr>cache := c, last_refresh_time := now\<rparr>))))))))"

section \<open>The refresh loop\<close>

text \<open>
  One pass through the body of \<^verbatim>\<open>while self._refreshing_enabled\<close> at the instant \<open>now\<close>,
  and what it did: slept a second waiting for the interval, returned because refreshing
  was disabled, completed a cycle, or caught what the cycle raised and reset the manager.
\<close>

datatype pass = Slept | Returned | Completed PlotRefreshResult | Caught exn

definition refresh_task_try ::
  "env \<Rightarrow> real \<Rightarrow> PlotManager \<Rightarrow> pass outcome \<times> PlotManager" where
  "refresh_task_try env now m =
     (if \<not> needs_refresh now m \<and> refreshing_enabled m then (Return Slept, m)
      else if \<not> refreshing_enabled m then (Return Returned, m)
      else
        (case refresh_cycle env now m of
           (Raise e, m1) \<Rightarrow> (Raise e, m1)
         | (Return total_result, m1) \<Rightarrow> (Return (Completed total_result), m1)))"

definition refresh_task_pass ::
  "env \<Rightarrow> real \<Rightarrow> PlotManager \<Rightarrow> pass outcome \<times> PlotManager" where
  "refresh_task_pass env now m =
     (case refresh_task_try env now m of
        (Raise e, m1) \<Rightarrow> (Return (Caught e), reset now m1)
      | (Return r, m1) \<Rightarrow> (Return r, m1))"

text \<open>The loop goes on to its next pass unless the pass returned from the task.\<close>

definition loop_continues :: "pass outcome \<Rightarrow> bool" where
  "loop_continues r = (case r of Return Returned \<Rightarrow> False | Return _ \<Rightarrow> True | Raise e \<Rightarrow> False)"

section \<open>Concrete instances\<close>

text \<open>
  A small installation used to run the definitions: two plot directories, \<open>d1\<close> holding
  \<open>A.plot\<close> and \<open>B.plot\<close> and \<open>d2\<close> holding a copy of \<open>A.plot\<close>. A memo is two bytes, the
  farmer key and the pool key; anything else does not parse. The farmer owns key \<open>1\<close> and
  pool key \<open>3\<close>; \<open>B.plot\<close> was made for farmer key \<open>2\<close>.
\<close>

definition plot_A :: path where
  "plot_A = Path ''d1'' ''A.plot''"

definition plot_B :: path where
  "plot_B = Path ''d1'' ''B.plot''"

definition plot_C :: path where
  "plot_C = Path ''d2'' ''A.plot''"

definition demo_parse :: "bytes \<Rightarrow> exn + (pool_key_or_hash \<times> G1Element \<times> PrivateKey)" where
  "demo_parse memo = (case memo of [f, p] \<Rightarrow> Inr (PoolKey [p], [f], []) | _ \<Rightarrow> Inl ValueError)"

definition demo_env :: env where
  "demo_env =
     \<lparr>get_plot_filenames = Inr [(''d1'', [plot_A, plot_B]), (''d2'', [plot_C])],
      stat = (\<lambda>p. Inr \<lparr>st_size = 100, st_mtime = 5\<rparr>),
      open_prover = (\<lambda>p. if p = plot_B then Inr (32, [2, 3]) else Inr (32, [1, 3])),
      expected_plot_size = (\<lambda>k. 100),
      UI_ACTUAL_SPACE_CONSTANT_FACTOR = 1,
      parse_plot_info = demo_parse,
      master_sk_to_local_sk = (\<lambda>sk. sk),
      get_g1 = (\<lambda>sk. sk),
      generate_plot_public_key = (\<lambda>local_pk farmer_pk contract. local_pk @ farmer_pk),
      refresh_callback = (\<lambda>ev r. None),
      write_bytes = (\<lambda>b. None),
      DiskCache_to_bytes = (\<lambda>d. [0, 1]),
      DiskCache_from_bytes = (\<lambda>b. Inl ValueError),
      prover_to_bytes = (\<lambda>p. []),
      prover_from_bytes = (\<lambda>b. Inl ValueError)\<rparr>"

definition demo_parameter :: PlotsRefreshParameter where
  "demo_parameter = \<lparr>interval_seconds = 120, retry_invalid_seconds = 1200, batch_size = 2\<rparr>"

definition demo_manager :: PlotManager where
  "demo_manager =
     (set_public_keys [[1]] [[3]]
        (PlotManager_init (Inl FileNotFoundError) None False demo_parameter))
       \<lparr>refreshing_enabled := True, refresh_thread_alive := True\<rparr>"

text \<open>An observer that raises on every event.\<close>

definition raising_env :: env where
  "raising_env = demo_env\<lparr>refresh_callback := (\<lambda>ev r. Some RuntimeError)\<rparr>"

text \<open>Cache entries and a cache for the installation above.\<close>

definition demo_entry :: "path \<Rightarrow> 8 word \<Rightarrow> real \<Rightarrow> CacheEntry" where
  "demo_entry p farmer t =
     \<lparr>prover = \<lparr>get_filename = p, get_size = 32, get_memo = [farmer, 3]\<rparr>,
      keys = \<lparr>farmer_public_key = [farmer], pool_public_key = Some [3],
              pool_contract_puzzle_hash = None, plot_public_key = [farmer]\<rparr>,
      last_use = t\<rparr>"

definition demo_stat :: stat_result where
  "demo_stat = \<lparr>st_size = 100, st_mtime = 5\<rparr>"

definition demo_plots :: "(path \<times> PlotInfo) list" where
  "demo_plots =
     [(plot_A, PlotInfo \<lparr>get_filename = plot_A, get_size = 32, get_memo = [1, 3]\<rparr>
                 (Some [3]) None [1] 100 5)]"

definition demo_cache :: Cache where
  "demo_cache =
     \<lparr>changed = False,
      data = [(plot_A, demo_entry plot_A 1 0), (plot_B, demo_entry plot_B 2 0),
              (plot_C, demo_entry plot_C 1 999000)],
      cache_file = Inl FileNotFoundError\<rparr>"

text \<open>The same cache beside a file written by another version of the format.\<close>

definition stale_cache :: Cache where
  "stale_cache = demo_cache\<lparr>cache_file := Inr [0, 2, 7]\<rparr>"


text \<open>\<open>B.plot\<close> with a memo that does not parse.\<close>

definition bad_memo_env :: env where
  "bad_memo_env =
     demo_env\<lparr>open_prover := (\<lambda>p. if p = plot_B then Inr (32, [9]) else Inr (32, [1, 3]))\<rparr>"

text \<open>A manager told to include plots of unknown keys.\<close>

definition including_manager :: PlotManager where
  "including_manager = demo_manager\<lparr>open_no_key_filenames := True\<rparr>"

text \<open>
  A cache of one entry, last used at 1000.5, and a toy encoding that can store it: a prover
  is encoded by its memo, the snapshot by its version field alone.
\<close>

definition small_cache :: Cache where
  "small_cache =
     \<lparr>changed = True, data = [(plot_A, demo_entry plot_A 1 (2001 / 2))],
      cache_file = Inl FileNotFoundError\<rparr>"

definition small_snapshot :: DiskCache where
  "small_snapshot =
     \<lparr>version = 1,
      disk_data = [(plot_A, \<lparr>prover_data = [1, 3], disk_keys = keys (demo_entry plot_A 1 0),
                              disk_last_use = 1000\<rparr>)]\<rparr>"

definition toy_env :: env where
  "toy_env =
     demo_env\<lparr>DiskCache_to_bytes := (\<lambda>d. [0, 1]),
              DiskCache_from_bytes := (\<lambda>b. if b = [0, 1] then Inr small_snapshot else Inl ValueError),
              prover_to_bytes := get_memo,
              prover_from_bytes :=
                (\<lambda>b. Inr \<lparr>get_filename = plot_A, get_size = 32, get_memo = b\<rparr>)\<rparr>"

text \<open>
  Another installation: both directories hold a file \<open>B.plot\<close>, and both files were made
  for farmer key \<open>2\<close>, which the farmer does not own.
\<close>

definition plot_D :: path where
  "plot_D = Path ''d2'' ''B.plot''"

definition foreign_env :: env where
  "foreign_env =
     demo_env\<lparr>get_plot_filenames := Inr [(''d1'', [plot_B]), (''d2'', [plot_D])],
              open_prover := (\<lambda>p. Inr (32, [2, 3]))\<rparr>"

section \<open>Predicates used in the statements\<close>

text \<open>The paths in the plot map, and the entry of a file name in the duplicate registry.\<close>

definition published :: "PlotManager \<Rightarrow> path set" where
  "published m = dom (map_of (plots m))"

definition entry_of :: "PlotManager \<Rightarrow> string \<Rightarrow> (string \<times> string list) option" where
  "entry_of m n = map_of (plot_filename_paths m) n"

text \<open>
  The cache is a dictionary whose entries hold a prover of their own path: the manager
  only stores provers it opened under the key, and a cache file it wrote itself gives
  them back.
\<close>

definition cache_ok :: "PlotManager \<Rightarrow> bool" where
  "cache_ok m \<longleftrightarrow>
     distinct (map fst (data (cache m))) \<and>
     (\<forall>p e. map_of (data (cache m)) p = Some e \<longrightarrow> get_filename (prover e) = p)"

text \<open>
  \<open>recorded m p\<close>: the directory of \<open>p\<close> is among the duplicates of its file name.
\<close>

definition recorded :: "PlotManager \<Rightarrow> path \<Rightarrow> bool" where
  "recorded m p =
     (case entry_of m (name p) of None \<Rightarrow> False | Some (d, ds) \<Rightarrow> parent p \<in> set ds)"

text \<open>
  The duplicate registry is a dictionary; every published path is the loaded path of its
  file name; the loaded path of every entry is published and is not among its duplicates.
  Inside a batch the paths \<open>R\<close> already collected in \<^verbatim>\<open>plots_refreshed\<close> count as published.
\<close>

definition registry_ok_with :: "path set \<Rightarrow> PlotManager \<Rightarrow> bool" where
  "registry_ok_with R m \<longleftrightarrow>
     distinct (map fst (plot_filename_paths m)) \<and>
     (\<forall>p \<in> published m \<union> R. \<exists>ds. entry_of m (name p) = Some (parent p, ds)) \<and>
     (\<forall>n d ds. entry_of m n = Some (d, ds) \<longrightarrow> Path d n \<in> published m \<union> R \<and> d \<notin> set ds)"

definition registry_ok :: "PlotManager \<Rightarrow> bool" where
  "registry_ok m = registry_ok_with {} m"

text \<open>Every path the duplicate registry names, loaded or duplicate, is among \<open>P\<close>.\<close>

definition registry_within :: "path set \<Rightarrow> PlotManager \<Rightarrow> bool" where
  "registry_within P m \<longleftrightarrow>
     (\<forall>n d ds. entry_of m n = Some (d, ds) \<longrightarrow>
        Path d n \<in> P \<and> (\<forall>d' \<in> set ds. Path d' n \<in> P))"

text \<open>The candidate paths of a cycle; a directory listing names no file twice.\<close>

definition plot_paths_of :: "env \<Rightarrow> path list" where
  "plot_paths_of env =
     (case get_plot_filenames env of Inl e \<Rightarrow> [] | Inr listing \<Rightarrow> concat (map snd listing))"

definition listing_ok :: "env \<Rightarrow> bool" where
  "listing_ok env = distinct (plot_paths_of env)"

text \<open>The gates of pre-processing and post-processing, as predicates.\<close>

definition filtered_out :: "PlotManager \<Rightarrow> path \<Rightarrow> bool" where
  "filtered_out m p = (case match_str m of None \<Rightarrow> False | Some s \<Rightarrow> \<not> sublist s (str p))"

definition in_backoff :: "real \<Rightarrow> PlotManager \<Rightarrow> path \<Rightarrow> bool" where
  "in_backoff now m p =
     (case map_of (failed_to_open_filenames m) p of
        None \<Rightarrow> False
      | Some t \<Rightarrow> now - of_int t < of_int (retry_invalid_seconds (refresh_parameter m)))"

definition size_ok :: "env \<Rightarrow> stat_result \<Rightarrow> DiskProver \<Rightarrow> bool" where
  "size_ok env stat_info pr =
     (\<not> (get_size pr \<ge> 30 \<and>
         of_nat (st_size stat_info)
           < 0.98 * (of_nat (expected_plot_size env (get_size pr))
                      * UI_ACTUAL_SPACE_CONSTANT_FACTOR env)))"

definition accepts_keys :: "PlotManager \<Rightarrow> CacheKeys \<Rightarrow> bool" where
  "accepts_keys m k =
     (open_no_key_filenames m \<or>
      (farmer_public_key k \<in> set (farmer_public_keys m) \<and>
       (case pool_public_key k of None \<Rightarrow> True | Some pk \<Rightarrow> pk \<in> set (pool_public_keys m))))"

text \<open>The keys that decoding the memo of a file gives, if the file opens and its memo parses.\<close>

definition decoded_keys :: "env \<Rightarrow> path \<Rightarrow> CacheKeys option" where
  "decoded_keys env p =
     (case DiskProver_open env p of
        Inl e \<Rightarrow> None
      | Inr pr \<Rightarrow>
          (case process_memo env (p, get_memo pr) of
             Inl e \<Rightarrow> None
           | Inr (q, result_bytes) \<Rightarrow> result_bytes))"

text \<open>
  A file that a cycle will take up and accept: the manager is enabled, the file passes
  the filter, opens, has its full size, and its keys (those of the cache entry if there is
  one, else those decoded from its memo) pass the key checks.
\<close>

definition farmable :: "env \<Rightarrow> PlotManager \<Rightarrow> path \<Rightarrow> bool" where
  "farmable env m p =
     (refreshing_enabled m \<and> \<not> filtered_out m p \<and>
      (case stat_and_open env p of
         Inl e \<Rightarrow> False
       | Inr (stat_info, pr) \<Rightarrow>
           size_ok env stat_info pr \<and>
           (case (case map_of (data (cache m)) p of
                    Some e \<Rightarrow> Some (keys e)
                  | None \<Rightarrow> decoded_keys env p) of
              None \<Rightarrow> False
            | Some k \<Rightarrow> accepts_keys m k)))"

text \<open>A file that is published or recorded as a duplicate of its file name.\<close>

definition covered :: "PlotManager \<Rightarrow> path \<Rightarrow> bool" where
  "covered m p = (p \<in> published m \<or> recorded m p)"

text \<open>
  Every cache entry holds the keys that decoding the file gives now, whenever the file
  can be decoded.
\<close>

definition cache_fresh :: "env \<Rightarrow> PlotManager \<Rightarrow> bool" where
  "cache_fresh env m \<longleftrightarrow>
     (\<forall>p e k. map_of (data (cache m)) p = Some e \<longrightarrow> decoded_keys env p = Some k \<longrightarrow> keys e = k)"

text \<open>
  The states of the manager that its operations reach from construction. The cache file
  that \<^verbatim>\<open>start_refreshing\<close> loads is one whose entries hold provers of their own paths, and
  a directory listing names no file twice.
\<close>

inductive reachable :: "PlotManager \<Rightarrow> bool" where
  constructed: "reachable (PlotManager_init f match open_no_key parameter)"
| keys_set: "reachable m \<Longrightarrow> reachable (set_public_keys farmer_keys pool_keys m)"
| triggered: "reachable m \<Longrightarrow> reachable (trigger_refresh m)"
| started: "reachable m \<Longrightarrow> start_refreshing env m = Inr m1 \<Longrightarrow> cache_ok m1 \<Longrightarrow> reachable m1"
| stopped: "reachable m \<Longrightarrow> reachable (stop_refreshing m)"
| was_reset: "reachable m \<Longrightarrow> reachable (reset now m)"
| passed: "reachable m \<Longrightarrow> listing_ok env \<Longrightarrow> refresh_task_pass env now m = (r, m1)
             \<Longrightarrow> reachable m1"

text \<open>The condition under which pre-processing hands a file on with its stat info and prover.\<close>

definition takes_up :: "env \<Rightarrow> real \<Rightarrow> PlotManager \<Rightarrow> path \<Rightarrow> bool" where
  "takes_up env now m p =
     (refreshing_enabled m \<and> \<not> filtered_out m p \<and> \<not> in_backoff now m p \<and>
      p \<notin> published m \<and> \<not> recorded m p \<and>
      (case stat_and_open env p of Inl e \<Rightarrow> False | Inr (stat_info, pr) \<Rightarrow> size_ok env stat_info pr))"

text \<open>
  The work of the two loops of \<^verbatim>\<open>refresh_batch\<close> as one list of items: a path with its stat
  info and cache entry, flagged when the entry was just decoded and is stored in the cache
  before the file is post-processed. \<open>publish_all\<close> post-processes the items in order and
  returns the plots to add to \<^verbatim>\<open>plots_refreshed\<close>.
\<close>

type_synonym work_item = "bool \<times> path \<times> stat_result \<times> CacheEntry"

fun publish_all ::
  "real \<Rightarrow> work_item list \<Rightarrow> PlotManager \<Rightarrow> (path \<times> PlotInfo) list \<times> PlotManager" where
  "publish_all now [] m = ([], m)"
| "publish_all now ((decoded, p, stat_info, e) # ws) m =
     (case post_process_file now p stat_info e
             (if decoded then m\<lparr>cache := Cache_update p e (cache m)\<rparr> else m) of
        (r, m1) \<Rightarrow>
          (case publish_all now ws m1 of
             (adds, m2) \<Rightarrow> ((case r of None \<Rightarrow> [] | Some i \<Rightarrow> [(p, i)]) @ adds, m2)))"

definition add_all :: "(path \<times> PlotInfo) list \<Rightarrow> batch_locals \<Rightarrow> batch_locals" where
  "add_all adds l = foldl (\<lambda>l (p, i). add_refreshed p i l) l adds"

definition queue_misses :: "(path \<times> stat_result \<times> DiskProver) list \<Rightarrow> batch_locals \<Rightarrow> batch_locals" where
  "queue_misses ms l =
     foldl (\<lambda>l (p, stat_info, pr).
              l\<lparr>process_args := process_args l @ [(p, get_memo pr)],
                stat_infos := AList.update p stat_info (stat_infos l),
                provers := AList.update p pr (provers l)\<rparr>) l ms"

text \<open>The cache hits among pre-processing results, as work items, and the queued misses.\<close>

fun cache_hits :: "PreProcessingResult list \<Rightarrow> work_item list" where
  "cache_hits [] = []"
| "cache_hits (r # rs) =
     (case (result_stat_info r, result_cache_entry r) of
        (Some stat_info, Some e) \<Rightarrow> (False, result_path r, stat_info, e) # cache_hits rs
      | _ \<Rightarrow> cache_hits rs)"

fun cache_misses :: "PreProcessingResult list \<Rightarrow> (path \<times> stat_result \<times> DiskProver) list" where
  "cache_misses [] = []"
| "cache_misses (r # rs) =
     (case (result_stat_info r, result_cache_entry r, result_prover r) of
        (Some stat_info, None, Some pr) \<Rightarrow> (result_path r, stat_info, pr) # cache_misses rs
      | _ \<Rightarrow> cache_misses rs)"

text \<open>A result as \<^verbatim>\<open>pre_process_file\<close> builds it: stat info and prover are set together.\<close>

definition wf_result :: "PreProcessingResult \<Rightarrow> bool" where
  "wf_result r = (result_stat_info r \<noteq> None \<and> result_prover r \<noteq> None \<or>
                  result_stat_info r = None \<and> result_cache_entry r = None)"

text \<open>What pre-processing returns for a path, given the state it starts from.\<close>

definition expected_result :: "env \<Rightarrow> real \<Rightarrow> PlotManager \<Rightarrow> path \<Rightarrow> PreProcessingResult" where
  "expected_result env now m p =
     (if takes_up env now m p then
        (case stat_and_open env p of
           Inl e \<Rightarrow> PreProcessingResult_init p
         | Inr (stat_info, pr) \<Rightarrow>
             \<lparr>result_path = p, result_cache_entry = map_of (data (cache m)) p,
               result_stat_info = Some stat_info, result_prover = Some pr\<rparr>)
      else PreProcessingResult_init p)"

text \<open>The work items of the queued misses whose memo decodes.\<close>

definition decoded_items ::
  "env \<Rightarrow> real \<Rightarrow> (path \<times> stat_result \<times> DiskProver) list \<Rightarrow> work_item list" where
  "decoded_items env now ms =
     concat (map (\<lambda>(p, stat_info, pr).
                    case process_memo env (p, get_memo pr) of
                      Inl e \<Rightarrow> []
                    | Inr (q, result_bytes) \<Rightarrow>
                        (case result_bytes of
                           None \<Rightarrow> []
                         | Some k \<Rightarrow>
                             [(True, p, stat_info, \<lparr>prover = pr, keys = k, last_use = now\<rparr>)]))
                 ms)"

text \<open>What no work item changes: the plot map, the configuration and the flags.\<close>

definition same_frame :: "PlotManager \<Rightarrow> PlotManager \<Rightarrow> bool" where
  "same_frame m m1 \<longleftrightarrow>
     plots m1 = plots m \<and> farmer_public_keys m1 = farmer_public_keys m \<and>
     pool_public_keys m1 = pool_public_keys m \<and> match_str m1 = match_str m \<and>
     open_no_key_filenames m1 = open_no_key_filenames m \<and>
     last_refresh_time m1 = last_refresh_time m \<and> refresh_parameter m1 = refresh_parameter m \<and>
     refresh_thread_alive m1 = refresh_thread_alive m \<and>
     refreshing_enabled m1 = refreshing_enabled m \<and> initial m1 = initial m \<and>
     cache_file (cache m1) = cache_file (cache m)"

text \<open>The work items of a batch that is pre-processed in state \<open>m\<close>.\<close>

definition batch_items :: "env \<Rightarrow> real \<Rightarrow> PlotManager \<Rightarrow> path list \<Rightarrow> work_item list" where
  "batch_items env now m batch =
     cache_hits (map (expected_result env now m) batch) @
     decoded_items env now (cache_misses (map (expected_result env now m) batch))"

text \<open>Entries of the duplicate registry stay, with their loaded directory, and only grow.\<close>

definition entries_grow :: "PlotManager \<Rightarrow> PlotManager \<Rightarrow> bool" where
  "entries_grow m m1 \<longleftrightarrow>
     (\<forall>n d ds. entry_of m n = Some (d, ds) \<longrightarrow>
        (\<exists>ds1. entry_of m1 n = Some (d, ds1) \<and> set ds \<subseteq> set ds1))"

text \<open>One batch: its files are pre-processed, then the results go through \<^verbatim>\<open>refresh_batch\<close>.\<close>

definition run_batch ::
  "env \<Rightarrow> real \<Rightarrow> path list \<Rightarrow> PlotManager \<Rightarrow> PlotRefreshResult outcome \<times> PlotManager" where
  "run_batch env now batch m =
     refresh_batch env now (fst (pre_process_batch env now batch m))
       (snd (pre_process_batch env now batch m))"

text \<open>Only the last batch of a list leaves nothing remaining.\<close>

definition zero_only_last :: "(nat \<times> 'a list) list \<Rightarrow> bool" where
  "zero_only_last bs = (\<forall>i. Suc i < length bs \<longrightarrow> fst (bs ! i) \<noteq> 0)"

text \<open>The configuration of the manager: keys, options and flags.\<close>

definition same_config :: "PlotManager \<Rightarrow> PlotManager \<Rightarrow> bool" where
  "same_config m m1 \<longleftrightarrow>
     farmer_public_keys m1 = farmer_public_keys m \<and>
     pool_public_keys m1 = pool_public_keys m \<and> match_str m1 = match_str m \<and>
     open_no_key_filenames m1 = open_no_key_filenames m \<and>
     refresh_parameter m1 = refresh_parameter m \<and>
     refreshing_enabled m1 = refreshing_enabled m"

text \<open>
  The phases of \<^verbatim>\<open>refresh_cycle\<close> around the loop over the batches: the removal of what is no
  longer listed, which returns the paths reported as removed, and the end of the cycle
  (clean-up and saving of the cache, time stamp).
\<close>

definition drop_unlisted :: "path list \<Rightarrow> PlotManager \<Rightarrow> path list \<times> PlotManager" where
  "drop_unlisted plot_paths m =
     (let m1 = m\<lparr>failed_to_open_filenames :=
                    del_keys (filter (\<lambda>p. p \<notin> set plot_paths)
                                (map fst (failed_to_open_filenames m)))
                      (failed_to_open_filenames m),
                  no_key_filenames := {p \<in> no_key_filenames m. p \<in> set plot_paths}\<rparr>
      in case drop_missing plot_paths (plot_filename_paths m1) (plots m1) [] of
           (filenames_to_remove, entries, pl, rm) \<Rightarrow>
             (rm, m1\<lparr>plots := pl,
                     plot_filename_paths := del_keys filenames_to_remove entries\<rparr>))"

definition end_of_cycle :: "env \<Rightarrow> real \<Rightarrow> PlotManager \<Rightarrow> PlotManager" where
  "end_of_cycle env now m3 =
     (let m4 = m3\<lparr>initial := False\<rparr>;
          m5 = m4\<lparr>cache := cleanup_cache now (plots m4) (cache m4)\<rparr>
      in case (if changed (cache m5) then Cache_save env (cache m5) else Inr (cache m5)) of
           Inl e \<Rightarrow> m5
         | Inr c \<Rightarrow> m5\<lparr>cache := c, last_refresh_time := now\<rparr>)"

section \<open>The refresh loop catches what a cycle raises\<close>

lemma pass_never_raises: "\<exists>r m1. refresh_task_pass env now m = (Return r, m1)"
  by (auto simp: refresh_task_pass_def split: prod.splits outcome.splits)

lemma Cache_load_returns: "\<exists>c1. Cache_load env c = Inr c1"
  by (auto simp: Cache_load_def split: sum.splits exn.splits)

lemma start_refreshing_returns: "\<exists>m1. start_refreshing env m = Inr m1"
proof -
  obtain c1 where "Cache_load env (cache (m\<lparr>refreshing_enabled := True\<rparr>)) = Inr c1"
    using Cache_load_returns by blast
  then show ?thesis by (simp add: start_refreshing_def Let_def)
qed

lemma raising_cycle:
  "refresh_cycle raising_env 1000 demo_manager = (Raise RuntimeError, demo_manager)"
  by (simp add: refresh_cycle_def raising_env_def demo_env_def)

lemma demo_needs: "refreshing_enabled demo_manager \<and> needs_refresh 1000 demo_manager"
  by (simp add: demo_manager_def needs_refresh_def set_public_keys_def PlotManager_init_def
      demo_parameter_def)

text \<open>
  Claim C4. A pass of the refresh loop never raises, and neither does \<^verbatim>\<open>start_refreshing\<close>.
  When the cycle of a pass raises \<open>e\<close>, leaving the manager in state \<open>m1\<close>, the pass catches
  it and ends in \<open>reset now m1\<close>: the plot map, the duplicate registry, the failure registry
  and the no-key registry are empty, the enabled flag is untouched, and the loop goes on to
  its next pass.
\<close>

theorem cycle_exception_resets:
  "(\<exists>r m2. refresh_task_pass env now m = (Return r, m2)) \<and>
   (\<exists>m2. start_refreshing env m = Inr m2) \<and>
   (refreshing_enabled m \<and> needs_refresh now m \<and> refresh_cycle env now m = (Raise e, m1) \<longrightarrow>
      refresh_task_pass env now m = (Return (Caught e), reset now m1) \<and>
      loop_continues (fst (refresh_task_pass env now m)) \<and>
      plots (reset now m1) = [] \<and> plot_filename_paths (reset now m1) = [] \<and>
      failed_to_open_filenames (reset now m1) = [] \<and> no_key_filenames (reset now m1) = {} \<and>
      refreshing_enabled (reset now m1) = refreshing_enabled m1)"
proof -
  have "refresh_task_pass env now m = (Return (Caught e), reset now m1)"
    if "refreshing_enabled m" "needs_refresh now m" "refresh_cycle env now m = (Raise e, m1)"
    using that by (simp add: refresh_task_pass_def refresh_task_try_def)
  then show ?thesis
    using pass_never_raises [of env now m] start_refreshing_returns [of env m]
    by (simp add: loop_continues_def reset_def)
qed

theorem cycle_exception_resets_witness:
  "refresh_task_pass raising_env 1000 demo_manager
     = (Return (Caught RuntimeError), reset 1000 demo_manager) \<and>
   loop_continues (fst (refresh_task_pass raising_env 1000 demo_manager)) \<and>
   plots (reset 1000 demo_manager) = [] \<and> refreshing_enabled (reset 1000 demo_manager)"
  using cycle_exception_resets [of raising_env 1000 demo_manager RuntimeError demo_manager]
    demo_needs raising_cycle
  by auto

lemma demo_manager_simps:
  "demo_manager =
     \<lparr>plots = [], plot_filename_paths = [], failed_to_open_filenames = [],
      no_key_filenames = {}, farmer_public_keys = [[1]], pool_public_keys = [[3]],
      cache = \<lparr>changed = False, data = [], cache_file = Inl FileNotFoundError\<rparr>,
      match_str = None, open_no_key_filenames = False, last_refresh_time = 0,
      refresh_parameter = demo_parameter, refresh_thread_alive = True,
      refreshing_enabled = True, initial = True\<rparr>"
  by (simp add: demo_manager_def set_public_keys_def PlotManager_init_def Cache_init_def)

text \<open>
  Claim C10. \<^verbatim>\<open>reset\<close> stores the current time in \<^verbatim>\<open>last_refresh_time\<close>, so after it
  \<^verbatim>\<open>needs_refresh\<close> holds at \<open>t\<close> exactly when more than the interval has passed since the
  reset, and after \<^verbatim>\<open>trigger_refresh\<close> as soon as \<open>t\<close> exceeds the interval. When a pass of
  the loop at \<open>t0\<close> caught an exception, a pass at any \<open>t\<close> with \<open>t - t0\<close> within the interval
  finds \<^verbatim>\<open>needs_refresh\<close> false and only sleeps, leaving the manager as the reset left it.
\<close>

theorem reset_postpones_next_cycle:
  "last_refresh_time (reset t0 m) = t0 \<and>
   needs_refresh t (reset t0 m) = (t - t0 > of_int (interval_seconds (refresh_parameter m))) \<and>
   needs_refresh t (trigger_refresh (reset t0 m))
     = (t > of_int (interval_seconds (refresh_parameter m))) \<and>
   (refreshing_enabled m \<and> needs_refresh t0 m \<and> refresh_cycle env t0 m = (Raise e, m1) \<and>
    t - t0 \<le> of_int (interval_seconds (refresh_parameter m1)) \<longrightarrow>
      snd (refresh_task_pass env t0 m) = reset t0 m1 \<and>
      \<not> needs_refresh t (reset t0 m1) \<and>
      (refreshing_enabled m1 \<longrightarrow>
         refresh_task_pass env2 t (reset t0 m1) = (Return Slept, reset t0 m1)))"
  by (auto simp: reset_def needs_refresh_def trigger_refresh_def refresh_task_pass_def
      refresh_task_try_def)

theorem reset_postpones_next_cycle_witness:
  "snd (refresh_task_pass raising_env 1000 demo_manager) = reset 1000 demo_manager \<and>
   \<not> needs_refresh 1100 (reset 1000 demo_manager) \<and>
   refresh_task_pass demo_env 1100 (reset 1000 demo_manager)
     = (Return Slept, reset 1000 demo_manager)"
  using reset_postpones_next_cycle
      [of 1000 demo_manager 1100 raising_env RuntimeError demo_manager demo_env]
    demo_needs raising_cycle
  by (auto simp: demo_manager_def set_public_keys_def PlotManager_init_def demo_parameter_def)

section \<open>Cache clean-up\<close>

lemma map_of_Cache_remove:
  "map_of (data (Cache_remove ks c)) p = (if p \<in> set ks then None else map_of (data c) p)"
  by (induction ks arbitrary: c) (auto simp: AList.delete_conv domIff)

lemma cleanup_loop_eq:
  "cleanup_loop now pl items =
     (map fst (filter (\<lambda>(p, e). expired now e expiry_seconds \<and> p \<notin> dom (map_of pl)) items),
      map (\<lambda>(p, e). (p, if p \<in> dom (map_of pl) then bump_last_use now e else e)) items)"
proof (induction items)
  case Nil
  show ?case by simp
next
  case (Cons x items)
  obtain a b where x: "x = (a, b)" by (cases x)
  show ?case
    by (cases "a \<in> dom (map_of pl)"; cases "expired now b expiry_seconds")
      (simp_all add: Cons.IH x)
qed

lemma map_of_map_value:
  "map_of (map (\<lambda>(p, e). (p, f p e)) items) p = map_option (f p) (map_of items p)"
  by (induction items) auto

lemma distinct_map_of_mem:
  "distinct (map fst items) \<Longrightarrow> map_of items p = Some e \<Longrightarrow> (p, e') \<in> set items \<longleftrightarrow> e' = e"
  by (metis map_of_is_SomeI map_of_SomeD option.inject)

text \<open>
  Claim C7. After the clean-up an entry of the cache is gone exactly when its
  \<^verbatim>\<open>last_use\<close> lies more than 7 days (604800 seconds) back and its path is not in the plot
  map; an entry whose path is in the plot map stays with \<^verbatim>\<open>last_use\<close> set to the current
  time; any other entry (an unpublished path inside the window) stays as it was, not bumped.
\<close>

theorem cleanup_cache_lookup:
  assumes "distinct (map fst (data c))"
  shows "map_of (data (cleanup_cache now pl c)) p =
     (case map_of (data c) p of
        None \<Rightarrow> None
      | Some e \<Rightarrow>
          if now - last_use e > 604800 \<and> p \<notin> dom (map_of pl) then None
          else if p \<in> dom (map_of pl) then Some (e\<lparr>last_use := now\<rparr>)
          else Some e)"
proof -
  let ?rp = "map fst (filter (\<lambda>(p, e). expired now e expiry_seconds \<and> p \<notin> dom (map_of pl))
                        (data c))"
  let ?items = "map (\<lambda>(p, e). (p, if p \<in> dom (map_of pl) then bump_last_use now e else e))
                  (data c)"
  have look: "map_of (data (cleanup_cache now pl c)) p
                = (if p \<in> set ?rp then None else map_of ?items p)"
    by (simp add: cleanup_cache_def cleanup_loop_eq map_of_Cache_remove)
  have items: "map_of ?items p
                 = map_option (\<lambda>e. if p \<in> dom (map_of pl) then bump_last_use now e else e)
                     (map_of (data c) p)"
    by (rule map_of_map_value)
  show ?thesis
  proof (cases "map_of (data c) p")
    case None
    then have "p \<notin> fst ` set (data c)" by (simp add: map_of_eq_None_iff)
    then have "p \<notin> set ?rp" by force
    then show ?thesis using None look items by simp
  next
    case (Some e)
    have "p \<in> set ?rp \<longleftrightarrow> expired now e expiry_seconds \<and> p \<notin> dom (map_of pl)"
      using distinct_map_of_mem [OF assms Some] by force
    then show ?thesis using Some look items
      by (auto simp: expired_def expiry_seconds_def bump_last_use_def)
  qed
qed

lemma demo_cache_distinct: "distinct (map fst (data demo_cache))"
  by (simp add: demo_cache_def plot_A_def plot_B_def plot_C_def)

theorem cleanup_cache_lookup_witness:
  "map_of (data (cleanup_cache 1000000 demo_plots demo_cache)) plot_A
     = Some (demo_entry plot_A 1 1000000) \<and>
   map_of (data (cleanup_cache 1000000 demo_plots demo_cache)) plot_B = None \<and>
   map_of (data (cleanup_cache 1000000 demo_plots demo_cache)) plot_C
     = Some (demo_entry plot_C 1 999000)"
  using cleanup_cache_lookup [OF demo_cache_distinct, of 1000000 demo_plots plot_A]
    cleanup_cache_lookup [OF demo_cache_distinct, of 1000000 demo_plots plot_B]
    cleanup_cache_lookup [OF demo_cache_distinct, of 1000000 demo_plots plot_C]
  by (simp add: demo_cache_def demo_plots_def demo_entry_def plot_A_def plot_B_def plot_C_def)

section \<open>Pre-processing: the size guard\<close>




section \<open>Post-processing: plots of unknown keys\<close>

text \<open>
  With \<^verbatim>\<open>open_no_key_filenames\<close> set, neither key check returns early, so every call reaches
  the statement that takes the path out of the no-key registry: whatever the keys of the
  plot, the path is not in the registry afterwards.
\<close>

lemma override_clears_no_key:
  "open_no_key_filenames m \<Longrightarrow>
   file_path \<notin> no_key_filenames
                  (snd (post_process_file now file_path stat_info cache_entry m))"
  by (simp add: post_process_file_def Let_def split: option.splits)

text \<open>
  Claim C2 does not hold of the code. \<open>B.plot\<close> is a well-formed plot made for farmer key
  \<open>2\<close>, which the farmer does not own, and no other directory holds a file of that name.
  Without \<^verbatim>\<open>open_no_key_filenames\<close>, \<^verbatim>\<open>post_process_file\<close> returns no \<^verbatim>\<open>PlotInfo\<close> and the path
  is in the no-key registry afterwards, as claimed. With \<^verbatim>\<open>open_no_key_filenames\<close> a
  \<^verbatim>\<open>PlotInfo\<close> is returned, as claimed, but the path is not in the no-key registry
  afterwards: the registration made by the farmer-key check is undone by the removal meant
  for plots that passed the key checks.
\<close>

theorem unknown_farmer_key_not_registered:
  "farmer_public_key (keys (demo_entry plot_B 2 0)) \<notin> set (farmer_public_keys demo_manager) \<and>
   farmer_public_keys including_manager = farmer_public_keys demo_manager \<and>
   \<not> open_no_key_filenames demo_manager \<and>
   fst (post_process_file 1000 plot_B demo_stat (demo_entry plot_B 2 0) demo_manager) = None \<and>
   no_key_filenames
     (snd (post_process_file 1000 plot_B demo_stat (demo_entry plot_B 2 0) demo_manager))
     = {plot_B} \<and>
   open_no_key_filenames including_manager \<and>
   fst (post_process_file 1000 plot_B demo_stat (demo_entry plot_B 2 0) including_manager)
     = Some (PlotInfo \<lparr>get_filename = plot_B, get_size = 32, get_memo = [2, 3]\<rparr>
               (Some [3]) None [2] 100 5) \<and>
   no_key_filenames
     (snd (post_process_file 1000 plot_B demo_stat (demo_entry plot_B 2 0) including_manager))
     = {}"
  by (simp add: post_process_file_def Let_def including_manager_def demo_manager_simps
      demo_entry_def demo_stat_def plot_B_def)

section \<open>Loading the cache\<close>

text \<open>
  Claim C3, as stated, fails: a cache that already holds entries and is loaded from a file
  of another version keeps its entries; it does not end up empty.
\<close>

theorem Cache_load_never_raises_counterexample:
  "uint16_from_bytes (take 2 [0, 2, 7]) = Inr 2 \<and> 2 \<noteq> CURRENT_VERSION \<and>
   cache_file stale_cache = Inr [0, 2, 7] \<and>
   Cache_load demo_env stale_cache = Inr stale_cache \<and> data stale_cache \<noteq> []"
  by (simp add: Cache_load_def Cache_load_try_def stale_cache_def demo_cache_def
      uint16_from_bytes_def CURRENT_VERSION_def)

text \<open>
  Claim C3, amended. \<^verbatim>\<open>Cache.load\<close> never raises, whatever the file holds, and never
  touches the file or the dirty flag. When there is no readable file, or its leading
  version field is not \<^verbatim>\<open>CURRENT_VERSION\<close>, the cache is left exactly as it was (so it is
  empty if it was empty, as on a newly constructed cache): nothing of the file is loaded.
\<close>

theorem Cache_load_never_raises:
  "\<exists>c1. Cache_load env c = Inr c1 \<and>
     ((\<forall>serialized. cache_file c = Inr serialized \<longrightarrow>
          uint16_from_bytes (take 2 serialized) \<noteq> Inr CURRENT_VERSION) \<longrightarrow> c1 = c) \<and>
     cache_file c1 = cache_file c \<and> changed c1 = changed c"
  by (cases "cache_file c")
    (auto simp: Cache_load_def Cache_load_try_def split: sum.splits exn.splits)

theorem Cache_load_never_raises_witness:
  "Cache_load demo_env stale_cache = Inr stale_cache \<and>
   Cache_load demo_env (Cache_init (Inr [0, 2, 7])) = Inr (Cache_init (Inr [0, 2, 7])) \<and>
   data (Cache_init (Inr [0, 2, 7])) = []"
  using Cache_load_never_raises [of demo_env stale_cache]
    Cache_load_never_raises [of demo_env "Cache_init (Inr [0, 2, 7])"]
  by (auto simp: stale_cache_def demo_cache_def uint16_from_bytes_def CURRENT_VERSION_def
      Cache_init_def)

section \<open>Decoding failures\<close>

lemma process_memo_raises:
  "parse_plot_info env memo = Inl e \<Longrightarrow> process_memo env (file_path, memo) = Inl e"
  by (simp add: process_memo_def)

text \<open>
  Claim C1 does not hold of the code. In a batch of two cache misses, \<open>A.plot\<close> with a good
  memo and \<open>B.plot\<close> with a memo that does not parse, \<^verbatim>\<open>process_memo\<close> raises for \<open>B.plot\<close>
  instead of returning a \<^verbatim>\<open>None\<close> result, the bulk decoding raises, and so does
  \<^verbatim>\<open>refresh_batch\<close>: nothing is recorded in the failure registry and \<open>A.plot\<close> is not
  published.
\<close>

theorem bad_memo_aborts_batch:
  "process_memo bad_memo_env (plot_B, [9]) = Inl ValueError \<and>
   refresh_batch bad_memo_env 1000
     (fst (pre_process_batch bad_memo_env 1000 [plot_A, plot_B] demo_manager)) demo_manager
     = (Raise ValueError, demo_manager) \<and>
   failed_to_open_filenames demo_manager = [] \<and> plots demo_manager = []"
  by (simp add: process_memo_def refresh_batch_def starmap_def pre_process_file_def
      stat_and_open_def DiskProver_open_def Cache_get_def PreProcessingResult_init_def
      batch_locals_init_def bad_memo_env_def demo_env_def demo_parse_def demo_manager_simps
      demo_parameter_def plot_A_def plot_B_def Let_def)

section \<open>Saving and re-loading the cache\<close>

lemma traverse_map:
  "(\<And>x. x \<in> set xs \<Longrightarrow> f x = Inr (g x)) \<Longrightarrow> traverse f xs = Inr (map g xs)"
  by (induction xs) auto

lemma traverse_map_map:
  "(\<And>x. x \<in> set xs \<Longrightarrow> f (h x) = Inr (g x)) \<Longrightarrow> traverse f (map h xs) = Inr (map g xs)"
  by (induction xs) auto

lemma update_append_new:
  "k \<notin> fst ` set al \<Longrightarrow> AList.update k v al = al @ [(k, v)]"
  by (induction al) auto

lemma foldl_update_distinct:
  "distinct (map fst (acc @ xs)) \<Longrightarrow>
     foldl (\<lambda>d (k, v). AList.update k v d) acc xs = acc @ xs"
proof (induction xs arbitrary: acc)
  case Nil
  show ?case by simp
next
  case (Cons x xs)
  obtain k v where x: "x = (k, v)" by (cases x)
  have "k \<notin> fst ` set acc" using Cons.prems x by auto
  then have "AList.update k v acc = acc @ [(k, v)]" by (rule update_append_new)
  moreover have "distinct (map fst ((acc @ [(k, v)]) @ xs))" using Cons.prems x by simp
  ultimately show ?case using Cons.IH [of "acc @ [(k, v)]"] x by simp
qed

lemma dict_of_distinct: "distinct (map fst xs) \<Longrightarrow> dict_of xs = xs"
  using foldl_update_distinct [of "[]" xs] by (simp add: dict_of_def)

lemma map_fst_map_value: "map fst (map (\<lambda>(p, e). (p, f p e)) xs) = map fst xs"
  by (induction xs) auto

lemma to_disk_entry_in_range:
  assumes "0 \<le> last_use e" "last_use e < 2 ^ 64"
  shows "to_disk_entry env (p, e)
           = Inr (p, \<lparr>prover_data = prover_to_bytes env (prover e), disk_keys = keys e,
                       disk_last_use = nat \<lfloor>last_use e\<rfloor>\<rparr>)"
proof -
  have "\<lfloor>last_use e\<rfloor> < 2 ^ 64" using assms(2) by (simp add: floor_less_iff)
  moreover have "0 \<le> \<lfloor>last_use e\<rfloor>" using assms(1) by simp
  ultimately show ?thesis using assms(1) by (simp add: to_disk_entry_def uint64_def py_int_def)
qed

text \<open>
  Claim C9. Take a cache whose keys are distinct and whose time stamps lie in the range of
  \<^verbatim>\<open>uint64\<close>, an encoding that gives back the snapshot of this cache and the prover of each
  of its entries, with the version field leading, and a write that succeeds. Then \<^verbatim>\<open>save\<close>
  followed by \<^verbatim>\<open>load\<close> yields the same paths in the same order, each with the same keys
  and the same prover (so the same prover bytes), and a \<^verbatim>\<open>last_use\<close> that is the original
  cut to whole seconds, less than one second away from it.
\<close>

theorem save_load_roundtrip:
  assumes dist: "distinct (map fst (data c))"
    and range: "\<forall>(p, e) \<in> set (data c). 0 \<le> last_use e \<and> last_use e < 2 ^ 64"
    and written: "write_bytes env (DiskCache_to_bytes env (snapshot env c)) = None"
    and lead: "uint16_from_bytes (take 2 (DiskCache_to_bytes env (snapshot env c))) = Inr CURRENT_VERSION"
    and codec: "DiskCache_from_bytes env (DiskCache_to_bytes env (snapshot env c)) = Inr (snapshot env c)"
    and provers: "\<forall>(p, e) \<in> set (data c). prover_from_bytes env (prover_to_bytes env (prover e)) = Inr (prover e)"
  shows "\<exists>c1 c2. Cache_save env c = Inr c1 \<and> Cache_load env c1 = Inr c2 \<and>
           map fst (data c2) = map fst (data c) \<and>
           list_all2 (\<lambda>(p, e) (p', e'). p' = p \<and> keys e' = keys e \<and> prover e' = prover e \<and>
                        prover_to_bytes env (prover e') = prover_to_bytes env (prover e) \<and>
                        last_use e' = of_int \<lfloor>last_use e\<rfloor> \<and> \<bar>last_use e - last_use e'\<bar> < 1)
             (data c) (data c2)"
proof -
  let ?f = "\<lambda>(p, e). (p, \<lparr>prover_data = prover_to_bytes env (prover e), disk_keys = keys e,
                              disk_last_use = nat \<lfloor>last_use e\<rfloor>\<rparr>)"
  let ?g = "\<lambda>(p, e). (p, e\<lparr>last_use := of_int \<lfloor>last_use e\<rfloor>\<rparr>)"
  let ?ser = "DiskCache_to_bytes env (snapshot env c)"
  let ?c1 = "c\<lparr>cache_file := Inr ?ser, changed := False\<rparr>"
  let ?c2 = "?c1\<lparr>data := map ?g (data c)\<rparr>"
  have tr: "traverse (to_disk_entry env) (data c) = Inr (map ?f (data c))"
    using range by (intro traverse_map) (auto simp: to_disk_entry_in_range)
  have keys_f: "map fst (map ?f (data c)) = map fst (data c)" by (rule map_fst_map_value)
  have d_f: "dict_of (map ?f (data c)) = map ?f (data c)"
    by (rule dict_of_distinct) (simp only: keys_f dist)
  have save: "Cache_save env c = Inr ?c1"
    using written by (simp add: Cache_save_def Cache_save_try_def tr d_f snapshot_def Let_def)
  have restored: "from_disk_entry env (?f x) = Inr (?g x)" if "x \<in> set (data c)" for x
  proof -
    obtain p e where x: "x = (p, e)" by (cases x)
    have "prover_from_bytes env (prover_to_bytes env (prover e)) = Inr (prover e)"
      using provers that x by auto
    moreover have "0 \<le> last_use e" using range that x by auto
    ultimately show ?thesis by (simp add: from_disk_entry_def x)
  qed
  have tr2: "traverse (from_disk_entry env) (map ?f (data c)) = Inr (map ?g (data c))"
    using restored by (rule traverse_map_map)
  have keys_g: "map fst (map ?g (data c)) = map fst (data c)" by (rule map_fst_map_value)
  have d_g: "dict_of (map ?g (data c)) = map ?g (data c)"
    by (rule dict_of_distinct) (simp only: keys_g dist)
  have load: "Cache_load env ?c1 = Inr ?c2"
    using lead codec tr2 d_g
    by (simp add: Cache_load_def Cache_load_try_def snapshot_def)
  have rel: "list_all2 (\<lambda>(p, e) (p', e'). p' = p \<and> keys e' = keys e \<and> prover e' = prover e \<and>
                        prover_to_bytes env (prover e') = prover_to_bytes env (prover e) \<and>
                        last_use e' = of_int \<lfloor>last_use e\<rfloor> \<and> \<bar>last_use e - last_use e'\<bar> < 1)
             (data c) (map ?g (data c))"
    by (rule list_all2_all_nthI) (auto simp: split_beta; linarith)+
  show ?thesis
    using save load keys_g rel by (intro exI [of _ ?c1] exI [of _ ?c2]) simp
qed


lemma small_snapshot_eq: "snapshot toy_env small_cache = small_snapshot"
  by (simp add: snapshot_def toy_env_def small_cache_def small_snapshot_def demo_entry_def
      CURRENT_VERSION_def)

lemma small_cache_hyps:
  "distinct (map fst (data small_cache))"
  "\<forall>(p, e) \<in> set (data small_cache). 0 \<le> last_use e \<and> last_use e < 2 ^ 64"
  "write_bytes toy_env (DiskCache_to_bytes toy_env (snapshot toy_env small_cache)) = None"
  "uint16_from_bytes (take 2 (DiskCache_to_bytes toy_env (snapshot toy_env small_cache)))
     = Inr CURRENT_VERSION"
  "DiskCache_from_bytes toy_env (DiskCache_to_bytes toy_env (snapshot toy_env small_cache))
     = Inr (snapshot toy_env small_cache)"
  "\<forall>(p, e) \<in> set (data small_cache).
      prover_from_bytes toy_env (prover_to_bytes toy_env (prover e)) = Inr (prover e)"
  by (simp_all add: small_snapshot_eq)
    (simp_all add: small_cache_def toy_env_def demo_env_def demo_entry_def uint16_from_bytes_def
      CURRENT_VERSION_def)

theorem save_load_roundtrip_witness:
  "\<exists>c1 c2. Cache_save toy_env small_cache = Inr c1 \<and> Cache_load toy_env c1 = Inr c2 \<and>
     map fst (data c2) = [plot_A] \<and>
     list_all2 (\<lambda>(p, e) (p', e'). p' = p \<and> keys e' = keys e \<and> prover e' = prover e \<and>
                  prover_to_bytes toy_env (prover e') = prover_to_bytes toy_env (prover e) \<and>
                  last_use e' = of_int \<lfloor>last_use e\<rfloor> \<and> \<bar>last_use e - last_use e'\<bar> < 1)
       [(plot_A, demo_entry plot_A 1 (2001 / 2))] (data c2)"
  using save_load_roundtrip [OF small_cache_hyps] by (simp add: small_cache_def)

section \<open>Lemmas on the refresh pipeline\<close>

section \<open>Post-processing, case by case\<close>

lemma ppf_reject:
  assumes "\<not> accepts_keys m (keys e)"
  shows "post_process_file now p st e m
           = (None, m\<lparr>no_key_filenames := insert p (no_key_filenames m)\<rparr>)"
  using assms
  by (auto simp: post_process_file_def accepts_keys_def Let_def split: option.splits)

lemma ppf_dup:
  assumes "accepts_keys m (keys e)" and "entry_of m (name p) = Some (l, ds)"
  shows "post_process_file now p st e m
           = (None,
              m\<lparr>no_key_filenames := no_key_filenames m - {p},
                plot_filename_paths :=
                  AList.update (name p) (l, set_add (parent (get_filename (prover e))) ds)
                    (plot_filename_paths m)\<rparr>)"
  using assms
  by (auto simp: post_process_file_def accepts_keys_def entry_of_def Let_def
      split: option.splits)

lemma ppf_new:
  assumes "accepts_keys m (keys e)" and "entry_of m (name p) = None"
  shows "post_process_file now p st e m
           = (Some (PlotInfo (prover e) (pool_public_key (keys e))
                      (pool_contract_puzzle_hash (keys e)) (plot_public_key (keys e))
                      (st_size st) (st_mtime st)),
              m\<lparr>no_key_filenames := no_key_filenames m - {p},
                plot_filename_paths :=
                  AList.update (name p) (parent (get_filename (prover e)), [])
                    (plot_filename_paths m),
                cache := (cache m)\<lparr>data :=
                  AList.map_entry p (bump_last_use now) (data (cache m))\<rparr>,
                failed_to_open_filenames := AList.delete p (failed_to_open_filenames m)\<rparr>)"
  using assms
  by (auto simp: post_process_file_def accepts_keys_def entry_of_def Let_def
      split: option.splits)

section \<open>Pre-processing\<close>

lemma pre_process_file_full:
  assumes "takes_up env now m p" and "stat_and_open env p = Inr (st, pr)"
  shows "pre_process_file env now p m
           = (\<lparr>result_path = p, result_cache_entry = map_of (data (cache m)) p,
               result_stat_info = Some st, result_prover = Some pr\<rparr>, m)"
  using assms
  by (auto simp: pre_process_file_def takes_up_def filtered_out_def in_backoff_def
      published_def entry_of_def recorded_def size_ok_def Cache_get_def PreProcessingResult_init_def Let_def
      split: option.splits)

lemma pre_process_file_noop:
  assumes "\<not> takes_up env now m p"
  shows "fst (pre_process_file env now p m) = PreProcessingResult_init p"
  using assms
  by (auto simp: pre_process_file_def takes_up_def filtered_out_def in_backoff_def
      published_def entry_of_def recorded_def size_ok_def Let_def
      split: option.splits sum.splits prod.splits)

lemma pre_process_file_state:
  "\<exists>f. snd (pre_process_file env now p m) = m\<lparr>failed_to_open_filenames := f\<rparr> \<and>
       (\<forall>q. q \<noteq> p \<longrightarrow> map_of f q = map_of (failed_to_open_filenames m) q)"
proof -
  have "snd (pre_process_file env now p m) = m \<or>
        snd (pre_process_file env now p m)
          = m\<lparr>failed_to_open_filenames :=
                AList.update p (py_int now) (failed_to_open_filenames m)\<rparr>"
    by (auto simp: pre_process_file_def Let_def split: option.splits sum.splits prod.splits)
  then show ?thesis
  proof
    assume "snd (pre_process_file env now p m) = m"
    then show ?thesis by (intro exI [of _ "failed_to_open_filenames m"]) simp
  next
    assume "snd (pre_process_file env now p m)
          = m\<lparr>failed_to_open_filenames :=
                AList.update p (py_int now) (failed_to_open_filenames m)\<rparr>"
    then show ?thesis
      by (intro exI [of _ "AList.update p (py_int now) (failed_to_open_filenames m)"])
        (simp add: AList.update_conv')
  qed
qed

lemma pre_process_file_expected:
  "fst (pre_process_file env now p m) = expected_result env now m p"
proof (cases "takes_up env now m p")
  case True
  then obtain st pr where "stat_and_open env p = Inr (st, pr)"
    by (auto simp: takes_up_def split: sum.splits)
  then show ?thesis using True pre_process_file_full [of env now m p st pr]
    by (simp add: expected_result_def)
next
  case False
  then show ?thesis using pre_process_file_noop [of env now m p]
    by (simp add: expected_result_def)
qed

lemma expected_result_cong:
  assumes "map_of f p = map_of (failed_to_open_filenames m) p"
  shows "expected_result env now (m\<lparr>failed_to_open_filenames := f\<rparr>) p = expected_result env now m p"
proof -
  have "takes_up env now (m\<lparr>failed_to_open_filenames := f\<rparr>) p = takes_up env now m p"
    using assms
    by (simp add: takes_up_def filtered_out_def in_backoff_def published_def entry_of_def recorded_def
        cong: option.case_cong)
  then show ?thesis
    by (simp add: expected_result_def cong: sum.case_cong prod.case_cong)
qed

lemma pre_process_batch_results:
  assumes "distinct batch"
  shows "fst (pre_process_batch env now batch m) = map (expected_result env now m) batch"
  using assms
proof (induction batch arbitrary: m)
  case Nil
  show ?case by simp
next
  case (Cons p batch)
  obtain f where f: "snd (pre_process_file env now p m) = m\<lparr>failed_to_open_filenames := f\<rparr>"
    and same: "\<forall>q. q \<noteq> p \<longrightarrow> map_of f q = map_of (failed_to_open_filenames m) q"
    using pre_process_file_state [of env now p m] by blast
  have "map (expected_result env now (m\<lparr>failed_to_open_filenames := f\<rparr>)) batch
          = map (expected_result env now m) batch"
    using Cons.prems same by (intro map_cong refl expected_result_cong) auto
  then show ?case
    using Cons.IH [of "m\<lparr>failed_to_open_filenames := f\<rparr>"] Cons.prems f
      pre_process_file_expected [of env now p m]
    by (simp add: split_beta)
qed

lemma pre_process_batch_state:
  "\<exists>f. snd (pre_process_batch env now batch m) = m\<lparr>failed_to_open_filenames := f\<rparr> \<and>
       (\<forall>q. q \<notin> set batch \<longrightarrow> map_of f q = map_of (failed_to_open_filenames m) q)"
proof (induction batch arbitrary: m)
  case Nil
  show ?case by (intro exI [of _ "failed_to_open_filenames m"]) simp
next
  case (Cons p batch)
  obtain f where f: "snd (pre_process_file env now p m) = m\<lparr>failed_to_open_filenames := f\<rparr>"
    and same: "\<forall>q. q \<noteq> p \<longrightarrow> map_of f q = map_of (failed_to_open_filenames m) q"
    using pre_process_file_state [of env now p m] by blast
  obtain g where g: "snd (pre_process_batch env now batch (m\<lparr>failed_to_open_filenames := f\<rparr>))
                       = m\<lparr>failed_to_open_filenames := f\<rparr>\<lparr>failed_to_open_filenames := g\<rparr>"
    and same2: "\<forall>q. q \<notin> set batch \<longrightarrow> map_of g q = map_of f q"
    using Cons.IH [of "m\<lparr>failed_to_open_filenames := f\<rparr>"] by auto
  show ?case
    using f g same same2 by (intro exI [of _ g]) (simp add: split_beta)
qed

section \<open>The loops of refresh_batch as one pass over work items\<close>

lemma dict_update_Nil [simp]: "dict_update d [] = d"
  by (simp add: dict_update_def)

lemma dict_update_Cons [simp]: "dict_update d ((k, v) # xs) = dict_update (AList.update k v d) xs"
  by (simp add: dict_update_def)

lemma dict_update_append: "dict_update d (xs @ ys) = dict_update (dict_update d xs) ys"
  by (simp add: dict_update_def)

lemma add_all_eq:
  "add_all adds l =
     l\<lparr>plots_refreshed := dict_update (plots_refreshed l) adds,
       result_loaded := result_loaded l @ map snd adds\<rparr>"
proof (induction adds arbitrary: l)
  case Nil
  show ?case by (simp add: add_all_def)
next
  case (Cons a adds)
  obtain p i where a: "a = (p, i)" by (cases a)
  have "add_all (a # adds) l = add_all adds (add_refreshed p i l)"
    by (simp add: add_all_def a)
  then show ?case by (simp add: Cons.IH a add_refreshed_def)
qed

lemma queue_misses_eq:
  "queue_misses ms l =
     l\<lparr>process_args := process_args l @ map (\<lambda>(p, st, pr). (p, get_memo pr)) ms,
       stat_infos := dict_update (stat_infos l) (map (\<lambda>(p, st, pr). (p, st)) ms),
       provers := dict_update (provers l) (map (\<lambda>(p, st, pr). (p, pr)) ms)\<rparr>"
proof (induction ms arbitrary: l)
  case Nil
  show ?case by (simp add: queue_misses_def)
next
  case (Cons a ms)
  obtain p st pr where a: "a = (p, st, pr)" by (cases a)
  have "queue_misses (a # ms) l =
          queue_misses ms (l\<lparr>process_args := process_args l @ [(p, get_memo pr)],
                stat_infos := AList.update p st (stat_infos l),
                provers := AList.update p pr (provers l)\<rparr>)"
    by (simp add: queue_misses_def a)
  then show ?case by (simp add: Cons.IH a)
qed

lemma collect_publish:
  assumes "\<forall>r \<in> set rs. wf_result r"
  shows "collect now rs l m =
           (None, queue_misses (cache_misses rs) (add_all (fst (publish_all now (cache_hits rs) m)) l),
            snd (publish_all now (cache_hits rs) m))"
  using assms
proof (induction rs arbitrary: l m)
  case Nil
  show ?case by (simp add: queue_misses_eq add_all_eq)
next
  case (Cons r rs)
  have wf: "\<forall>r \<in> set rs. wf_result r" and wfr: "wf_result r" using Cons.prems by auto
  show ?case
  proof (cases "result_stat_info r")
    case None
    then show ?thesis using Cons.IH [OF wf] by simp
  next
    case (Some st)
    show ?thesis
    proof (cases "result_cache_entry r")
      case None
      then obtain pr where pr: "result_prover r = Some pr"
        using wfr Some by (auto simp: wf_result_def)
      show ?thesis
        using Some None pr Cons.IH [OF wf]
        by (simp add: queue_misses_eq add_all_eq)
    next
      case (Some e)
      obtain x m1 where ppf: "post_process_file now (result_path r) st e m = (x, m1)"
        by (cases "post_process_file now (result_path r) st e m")
      obtain adds m2 where pa: "publish_all now (cache_hits rs) m1 = (adds, m2)"
        by (cases "publish_all now (cache_hits rs) m1")
      show ?thesis
        using \<open>result_stat_info r = Some st\<close> Some ppf pa Cons.IH [OF wf, of _ m1]
        by (cases x) (simp_all add: queue_misses_eq add_all_eq add_refreshed_def)
    qed
  qed
qed

lemma process_memo_result:
  "process_memo env (p, memo) = Inr x \<Longrightarrow> \<exists>k. x = (p, Some k)"
  by (auto simp: process_memo_def Let_def split: sum.splits prod.splits)

lemma decoded_items_Cons_Some:
  "process_memo env (p, get_memo pr) = Inr (p, Some k) \<Longrightarrow>
     decoded_items env now ((p, st, pr) # ms)
       = (True, p, st, \<lparr>prover = pr, keys = k, last_use = now\<rparr>) # decoded_items env now ms"
  by (simp add: decoded_items_def)

lemma apply_publish:
  assumes "traverse (process_memo env) (map (\<lambda>(p, st, pr). (p, get_memo pr)) ms) = Inr results"
    and "\<forall>(p, st, pr) \<in> set ms. map_of (provers l) p = Some pr \<and> map_of (stat_infos l) p = Some st"
  shows "apply_memos now results l m =
           (None, add_all (fst (publish_all now (decoded_items env now ms) m)) l,
            snd (publish_all now (decoded_items env now ms) m))"
  using assms
proof (induction ms arbitrary: results l m)
  case Nil
  then show ?case by (simp add: decoded_items_def add_all_eq)
next
  case (Cons a ms)
  obtain p st pr where a: "a = (p, st, pr)" by (cases a)
  from Cons.prems(1) a obtain x rest where
    x: "process_memo env (p, get_memo pr) = Inr x"
    and rest: "traverse (process_memo env) (map (\<lambda>(p, st, pr). (p, get_memo pr)) ms) = Inr rest"
    and results: "results = x # rest"
    by (auto split: sum.splits)
  obtain k where k: "x = (p, Some k)" using process_memo_result [OF x] by blast
  have look: "map_of (provers l) p = Some pr" "map_of (stat_infos l) p = Some st"
    using Cons.prems(2) a by auto
  have tail: "\<forall>(p, st, pr) \<in> set ms. map_of (provers l) p = Some pr \<and> map_of (stat_infos l) p = Some st"
    using Cons.prems(2) by auto
  let ?e = "\<lparr>prover = pr, keys = k, last_use = now\<rparr>"
  let ?m1 = "m\<lparr>cache := Cache_update p ?e (cache m)\<rparr>"
  obtain y m2 where ppf: "post_process_file now p st ?e ?m1 = (y, m2)"
    by (cases "post_process_file now p st ?e ?m1")
  obtain adds m3 where pa: "publish_all now (decoded_items env now ms) m2 = (adds, m3)"
    by (cases "publish_all now (decoded_items env now ms) m2")
  have items: "decoded_items env now (a # ms) = (True, p, st, ?e) # decoded_items env now ms"
    using x k a by (simp add: decoded_items_Cons_Some)
  show ?case
  proof (cases y)
    case None
    then show ?thesis
      using results k look ppf pa items Cons.IH [OF rest tail, of m2]
      by (simp add: Let_def add_all_eq)
  next
    case (Some i)
    have tail': "\<forall>(q, st', pr') \<in> set ms. map_of (provers (add_refreshed p i l)) q = Some pr'
                   \<and> map_of (stat_infos (add_refreshed p i l)) q = Some st'"
      using tail by (simp add: add_refreshed_def)
    show ?thesis
      using Some results k look ppf pa items Cons.IH [OF rest tail', of m2]
      by (simp add: Let_def add_all_eq add_refreshed_def)
  qed
qed

lemma publish_all_append:
  "publish_all now (ws1 @ ws2) m =
     (fst (publish_all now ws1 m) @ fst (publish_all now ws2 (snd (publish_all now ws1 m))),
      snd (publish_all now ws2 (snd (publish_all now ws1 m))))"
  by (induction ws1 arbitrary: m) (auto split: prod.splits option.splits)

lemma map_of_dict_update_distinct:
  "distinct (map fst xs) \<Longrightarrow> (k, v) \<in> set xs \<Longrightarrow> map_of (dict_update d xs) k = Some v"
proof (induction xs arbitrary: d)
  case Nil
  then show ?case by simp
next
  case (Cons a xs)
  obtain k' v' where a: "a = (k', v')" by (cases a)
  have keep: "k \<notin> fst ` set ys \<Longrightarrow> map_of (dict_update d' ys) k = map_of d' k" for ys d'
    by (induction ys arbitrary: d') (auto simp: AList.update_conv')
  show ?case
  proof (cases "(k, v) \<in> set xs")
    case True
    then show ?thesis using Cons a by simp
  next
    case False
    then have "k = k'" "v = v'" using Cons.prems a by auto
    moreover have "k' \<notin> fst ` set xs" using Cons.prems a by auto
    ultimately show ?thesis using a keep [of xs "AList.update k' v' d"]
      by (simp add: AList.update_conv')
  qed
qed

section \<open>What post-processing a list of work items keeps\<close>

lemma ppf_all_cases:
  assumes "\<not> accepts_keys m (keys e) \<Longrightarrow>
             Q (None, m\<lparr>no_key_filenames := insert p (no_key_filenames m)\<rparr>)"
    and "\<And>l ds. accepts_keys m (keys e) \<Longrightarrow> entry_of m (name p) = Some (l, ds) \<Longrightarrow>
           Q (None,
              m\<lparr>no_key_filenames := no_key_filenames m - {p},
                plot_filename_paths :=
                  AList.update (name p) (l, set_add (parent (get_filename (prover e))) ds)
                    (plot_filename_paths m)\<rparr>)"
    and "accepts_keys m (keys e) \<Longrightarrow> entry_of m (name p) = None \<Longrightarrow>
           Q (Some (PlotInfo (prover e) (pool_public_key (keys e))
                      (pool_contract_puzzle_hash (keys e)) (plot_public_key (keys e))
                      (st_size st) (st_mtime st)),
              m\<lparr>no_key_filenames := no_key_filenames m - {p},
                plot_filename_paths :=
                  AList.update (name p) (parent (get_filename (prover e)), [])
                    (plot_filename_paths m),
                cache := (cache m)\<lparr>data :=
                  AList.map_entry p (bump_last_use now) (data (cache m))\<rparr>,
                failed_to_open_filenames := AList.delete p (failed_to_open_filenames m)\<rparr>)"
  shows "Q (post_process_file now p st e m)"
proof (cases "accepts_keys m (keys e)")
  case False
  then show ?thesis using assms(1) by (simp add: ppf_reject)
next
  case True
  show ?thesis
  proof (cases "entry_of m (name p)")
    case None
    then show ?thesis using True assms(3) by (simp add: ppf_new)
  next
    case (Some a)
    obtain l ds where "a = (l, ds)" by (cases a)
    then show ?thesis using True Some assms(2) [of l ds] by (simp add: ppf_dup)
  qed
qed

text \<open>The state a work item is post-processed in.\<close>

lemma publish_all_state_induct:
  assumes "I m"
    and "\<And>dec p st e m r m1. (dec, p, st, e) \<in> set ws \<Longrightarrow> I m \<Longrightarrow>
           post_process_file now p st e
             (if dec then m\<lparr>cache := Cache_update p e (cache m)\<rparr> else m) = (r, m1) \<Longrightarrow> I m1"
  shows "I (snd (publish_all now ws m))"
  using assms
proof (induction ws arbitrary: m)
  case Nil
  then show ?case by simp
next
  case (Cons w ws)
  obtain dec p st e where w: "w = (dec, p, st, e)" by (cases w)
  let ?m0 = "if dec then m\<lparr>cache := Cache_update p e (cache m)\<rparr> else m"
  obtain r m1 where ppf: "post_process_file now p st e ?m0 = (r, m1)"
    by (cases "post_process_file now p st e ?m0")
  have "I m1" using Cons.prems(2) [of dec p st e m r m1] Cons.prems(1) ppf w by simp
  then have "I (snd (publish_all now ws m1))"
  proof (rule Cons.IH)
    fix dec' p' st' e' m' r' m1'
    assume "(dec', p', st', e') \<in> set ws" "I m'"
      "post_process_file now p' st' e'
         (if dec' then m'\<lparr>cache := Cache_update p' e' (cache m')\<rparr> else m') = (r', m1')"
    then show "I m1'" using Cons.prems(2) [of dec' p' st' e' m' r' m1'] by simp
  qed
  then show ?case using ppf w by (simp add: split_beta)
qed

lemma accepts_keys_cong:
  "open_no_key_filenames m1 = open_no_key_filenames m \<Longrightarrow>
   farmer_public_keys m1 = farmer_public_keys m \<Longrightarrow> pool_public_keys m1 = pool_public_keys m \<Longrightarrow>
   accepts_keys m1 k = accepts_keys m k"
  by (simp add: accepts_keys_def cong: option.case_cong)

lemma ppf_frame:
  "same_frame m (snd (post_process_file now p st e m))"
  by (rule ppf_all_cases [where Q = "\<lambda>x. same_frame m (snd x)"])
    (auto simp: same_frame_def)

lemma same_frame_refl [simp]: "same_frame m m"
  by (simp add: same_frame_def)

lemma same_frame_trans: "same_frame m m1 \<Longrightarrow> same_frame m1 m2 \<Longrightarrow> same_frame m m2"
  by (simp add: same_frame_def)

lemma same_frame_cache_update [simp]:
  "same_frame m (m\<lparr>cache := Cache_update p e (cache m)\<rparr>)"
  by (simp add: same_frame_def Cache_update_def)

lemma publish_all_frame: "same_frame m (snd (publish_all now ws m))"
proof (rule publish_all_state_induct [where I = "same_frame m"])
  show "same_frame m m" by simp
next
  fix dec p st e m' r m1
  assume "same_frame m m'"
    and ppf: "post_process_file now p st e
           (if dec then m'\<lparr>cache := Cache_update p e (cache m')\<rparr> else m') = (r, m1)"
  moreover have "same_frame m' (if dec then m'\<lparr>cache := Cache_update p e (cache m')\<rparr> else m')"
    by simp
  moreover have "same_frame (if dec then m'\<lparr>cache := Cache_update p e (cache m')\<rparr> else m') m1"
    using ppf_frame [of "if dec then m'\<lparr>cache := Cache_update p e (cache m')\<rparr> else m'" now p st e] ppf
    by simp
  ultimately show "same_frame m m1" by (blast intro: same_frame_trans)
qed

lemma cache_ok_update:
  "cache_ok m \<Longrightarrow> get_filename (prover e) = p \<Longrightarrow> cache_ok (m\<lparr>cache := Cache_update p e (cache m)\<rparr>)"
  by (auto simp: cache_ok_def Cache_update_def AList.distinct_update AList.update_conv')

lemma ppf_cache_ok:
  "cache_ok m \<Longrightarrow> cache_ok (snd (post_process_file now p st e m))"
  by (rule ppf_all_cases [where Q = "\<lambda>x. cache_ok (snd x)"])
    (auto simp: cache_ok_def AList.distinct_map_entry AList.map_of_map_entry bump_last_use_def
      split: option.splits if_splits)

lemma publish_all_cache_ok:
  assumes "cache_ok m" and "\<forall>(dec, p, st, e) \<in> set ws. get_filename (prover e) = p"
  shows "cache_ok (snd (publish_all now ws m))"
proof (rule publish_all_state_induct [where I = cache_ok])
  show "cache_ok m" by fact
next
  fix dec p st e m' r m1
  assume mem: "(dec, p, st, e) \<in> set ws" and ok: "cache_ok m'"
    and ppf: "post_process_file now p st e
           (if dec then m'\<lparr>cache := Cache_update p e (cache m')\<rparr> else m') = (r, m1)"
  have "get_filename (prover e) = p" using assms(2) mem by auto
  then have "cache_ok (if dec then m'\<lparr>cache := Cache_update p e (cache m')\<rparr> else m')"
    using ok by (simp add: cache_ok_update)
  then show "cache_ok m1" using ppf_cache_ok [of _ now p st e] ppf by fastforce
qed

lemma ppf_cache_fresh:
  "cache_fresh env m \<Longrightarrow> cache_fresh env (snd (post_process_file now p st e m))"
  by (rule ppf_all_cases [where Q = "\<lambda>x. cache_fresh env (snd x)"])
    (auto simp: cache_fresh_def AList.map_of_map_entry bump_last_use_def
      split: option.splits if_splits)

lemma publish_all_cache_fresh:
  assumes "cache_fresh env m"
    and "\<forall>(dec, p, st, e) \<in> set ws. dec \<longrightarrow> (\<forall>k. decoded_keys env p = Some k \<longrightarrow> keys e = k)"
  shows "cache_fresh env (snd (publish_all now ws m))"
proof (rule publish_all_state_induct [where I = "cache_fresh env"])
  show "cache_fresh env m" by fact
next
  fix dec p st e m' r m1
  assume mem: "(dec, p, st, e) \<in> set ws" and ok: "cache_fresh env m'"
    and ppf: "post_process_file now p st e
           (if dec then m'\<lparr>cache := Cache_update p e (cache m')\<rparr> else m') = (r, m1)"
  have "dec \<Longrightarrow> decoded_keys env p = Some k \<Longrightarrow> keys e = k" for k using assms(2) mem by auto
  then have "cache_fresh env (if dec then m'\<lparr>cache := Cache_update p e (cache m')\<rparr> else m')"
    using ok by (auto simp: cache_fresh_def Cache_update_def AList.update_conv')
  then show "cache_fresh env m1" using ppf_cache_fresh [of env _ now p st e] ppf by fastforce
qed

lemma set_add_set [simp]: "set (set_add x xs) = insert x (set xs)"
  by (auto simp: set_add_def)

lemma ppf_within:
  assumes "registry_within P m" and "Path (parent (get_filename (prover e))) (name p) \<in> P"
  shows "registry_within P (snd (post_process_file now p st e m))"
  by (rule ppf_all_cases [where Q = "\<lambda>x. registry_within P (snd x)"])
    (use assms in \<open>auto simp: registry_within_def entry_of_def AList.update_conv' split: if_splits\<close>)

lemma publish_all_within:
  assumes "registry_within P m"
    and "\<forall>(dec, p, st, e) \<in> set ws. get_filename (prover e) = p \<and> p \<in> P"
  shows "registry_within P (snd (publish_all now ws m))"
proof (rule publish_all_state_induct [where I = "registry_within P"])
  show "registry_within P m" by fact
next
  fix dec p st e m' r m1
  assume mem: "(dec, p, st, e) \<in> set ws" and ok: "registry_within P m'"
    and ppf: "post_process_file now p st e
           (if dec then m'\<lparr>cache := Cache_update p e (cache m')\<rparr> else m') = (r, m1)"
  have "Path (parent (get_filename (prover e))) (name p) \<in> P" using assms(2) mem by auto
  moreover have "registry_within P (if dec then m'\<lparr>cache := Cache_update p e (cache m')\<rparr> else m')"
    using ok by (simp add: registry_within_def entry_of_def)
  ultimately show "registry_within P m1" using ppf_within [of P _ e p now st] ppf by fastforce
qed

text \<open>Registers of paths that are not among the work items are not touched.\<close>

lemma ppf_untouched:
  assumes "q \<noteq> p"
  shows "map_of (data (cache (snd (post_process_file now p st e m)))) q = map_of (data (cache m)) q \<and>
         map_of (failed_to_open_filenames (snd (post_process_file now p st e m))) q
           = map_of (failed_to_open_filenames m) q"
  by (rule ppf_all_cases [where Q = "\<lambda>x. map_of (data (cache (snd x))) q = map_of (data (cache m)) q \<and>
         map_of (failed_to_open_filenames (snd x)) q = map_of (failed_to_open_filenames m) q"])
    (use assms in \<open>auto simp: AList.map_of_map_entry AList.delete_conv'\<close>)

lemma publish_all_untouched:
  assumes "q \<notin> (\<lambda>w. fst (snd w)) ` set ws"
  shows "map_of (data (cache (snd (publish_all now ws m)))) q = map_of (data (cache m)) q \<and>
         map_of (failed_to_open_filenames (snd (publish_all now ws m))) q
           = map_of (failed_to_open_filenames m) q"
proof (rule publish_all_state_induct
    [where I = "\<lambda>x. map_of (data (cache x)) q = map_of (data (cache m)) q \<and>
         map_of (failed_to_open_filenames x) q = map_of (failed_to_open_filenames m) q"])
  show "map_of (data (cache m)) q = map_of (data (cache m)) q \<and>
        map_of (failed_to_open_filenames m) q = map_of (failed_to_open_filenames m) q" by simp
next
  fix dec p st e m' r m1
  assume mem: "(dec, p, st, e) \<in> set ws"
    and ok: "map_of (data (cache m')) q = map_of (data (cache m)) q \<and>
         map_of (failed_to_open_filenames m') q = map_of (failed_to_open_filenames m) q"
    and ppf: "post_process_file now p st e
           (if dec then m'\<lparr>cache := Cache_update p e (cache m')\<rparr> else m') = (r, m1)"
  have neq: "q \<noteq> p" using assms mem by force
  let ?m0 = "if dec then m'\<lparr>cache := Cache_update p e (cache m')\<rparr> else m'"
  have "map_of (data (cache ?m0)) q = map_of (data (cache m')) q \<and>
        map_of (failed_to_open_filenames ?m0) q = map_of (failed_to_open_filenames m') q"
    using neq by (simp add: Cache_update_def AList.update_conv')
  then show "map_of (data (cache m1)) q = map_of (data (cache m)) q \<and>
         map_of (failed_to_open_filenames m1) q = map_of (failed_to_open_filenames m) q"
    using ppf_untouched [OF neq, of now st e ?m0] ppf ok by simp
qed

text \<open>Entries of the duplicate registry stay, with their loaded directory, and only grow.\<close>

lemma entries_grow_refl [simp]: "entries_grow m m"
  by (simp add: entries_grow_def)

lemma entries_grow_trans: "entries_grow m m1 \<Longrightarrow> entries_grow m1 m2 \<Longrightarrow> entries_grow m m2"
  unfolding entries_grow_def by (meson subset_trans)

lemma ppf_entries_grow: "entries_grow m (snd (post_process_file now p st e m))"
  by (rule ppf_all_cases [where Q = "\<lambda>x. entries_grow m (snd x)"])
    (auto simp: entries_grow_def entry_of_def AList.update_conv')

lemma publish_all_entries_grow: "entries_grow m (snd (publish_all now ws m))"
proof (rule publish_all_state_induct [where I = "entries_grow m"])
  show "entries_grow m m" by simp
next
  fix dec p st e m' r m1
  assume ok: "entries_grow m m'"
    and ppf: "post_process_file now p st e
           (if dec then m'\<lparr>cache := Cache_update p e (cache m')\<rparr> else m') = (r, m1)"
  let ?m0 = "if dec then m'\<lparr>cache := Cache_update p e (cache m')\<rparr> else m'"
  have "entries_grow m' ?m0" by (simp add: entries_grow_def entry_of_def)
  moreover have "entries_grow ?m0 m1" using ppf_entries_grow [of ?m0 now p st e] ppf by simp
  ultimately show "entries_grow m m1" using ok by (blast intro: entries_grow_trans)
qed

lemma entries_grow_recorded: "entries_grow m m1 \<Longrightarrow> recorded m q \<Longrightarrow> recorded m1 q"
  by (fastforce simp: entries_grow_def recorded_def split: option.splits)

lemma path_eq_iff: "p = q \<longleftrightarrow> parent p = parent q \<and> name p = name q"
  by (cases p; cases q) auto

lemma regD1: "registry_ok_with R m \<Longrightarrow> distinct (map fst (plot_filename_paths m))"
  unfolding registry_ok_with_def by blast

lemma regD2:
  "registry_ok_with R m \<Longrightarrow> q \<in> published m \<union> R \<Longrightarrow>
     \<exists>ds. entry_of m (name q) = Some (parent q, ds)"
  unfolding registry_ok_with_def by blast

lemma regD3:
  "registry_ok_with R m \<Longrightarrow> entry_of m n = Some (d, ds) \<Longrightarrow>
     Path d n \<in> published m \<union> R \<and> d \<notin> set ds"
  unfolding registry_ok_with_def by blast

lemma registry_step_reject:
  "registry_ok_with R (m\<lparr>no_key_filenames := nk\<rparr>) = registry_ok_with R m"
  by (simp add: registry_ok_with_def entry_of_def published_def)

lemma registry_step_dup:
  assumes ok: "registry_ok_with R m" and entry: "entry_of m (name p) = Some (l, ds)"
    and fresh: "p \<notin> published m \<union> R"
  shows "registry_ok_with R
           (m\<lparr>no_key_filenames := nk,
              plot_filename_paths :=
                AList.update (name p) (l, set_add (parent p) ds) (plot_filename_paths m)\<rparr>)"
    (is "registry_ok_with R ?m1")
proof -
  have pub: "published ?m1 = published m" by (simp add: published_def)
  have ent: "entry_of ?m1 n = (if n = name p then Some (l, set_add (parent p) ds) else entry_of m n)" for n
    by (simp add: entry_of_def AList.update_conv')
  have l_pub: "Path l (name p) \<in> published m \<union> R" and l_ds: "l \<notin> set ds"
    using regD3 [OF ok entry] by auto
  have "l \<noteq> parent p"
  proof
    assume "l = parent p"
    then have "Path l (name p) = p" by (cases p) simp
    then show False using l_pub fresh by simp
  qed
  have 1: "distinct (map fst (plot_filename_paths ?m1))"
    using regD1 [OF ok] by (simp add: AList.distinct_update)
  have 2: "\<exists>ds'. entry_of ?m1 (name q) = Some (parent q, ds')" if "q \<in> published ?m1 \<union> R" for q
  proof -
    have "q \<in> published m \<union> R" using that pub by simp
    then obtain ds' where q: "entry_of m (name q) = Some (parent q, ds')"
      using regD2 [OF ok] by blast
    show ?thesis
    proof (cases "name q = name p")
      case True
      then have "entry_of ?m1 (name q) = Some (l, set_add (parent p) ds)" by (simp add: ent)
      moreover have "l = parent q" using q entry True by simp
      ultimately show ?thesis by simp
    next
      case False
      then show ?thesis using q by (simp add: ent)
    qed
  qed
  have 3: "Path d n \<in> published ?m1 \<union> R \<and> d \<notin> set ds'" if "entry_of ?m1 n = Some (d, ds')" for n d ds'
  proof (cases "n = name p")
    case True
    then have "d = l" "ds' = set_add (parent p) ds" using that by (auto simp: ent)
    then show ?thesis using True l_pub l_ds \<open>l \<noteq> parent p\<close> pub by auto
  next
    case False
    then have "entry_of m n = Some (d, ds')" using that by (simp add: ent)
    then have "Path d n \<in> published m \<union> R \<and> d \<notin> set ds'" by (rule regD3 [OF ok])
    then show ?thesis using pub by auto
  qed
  show ?thesis unfolding registry_ok_with_def using 1 2 3 by blast
qed

lemma registry_step_new:
  assumes ok: "registry_ok_with R m" and entry: "entry_of m (name p) = None"
  shows "registry_ok_with (insert p R)
           (m\<lparr>no_key_filenames := nk,
              plot_filename_paths := AList.update (name p) (parent p, []) (plot_filename_paths m),
              cache := c, failed_to_open_filenames := fl\<rparr>)"
    (is "registry_ok_with _ ?m1")
proof -
  have pub: "published ?m1 = published m" by (simp add: published_def)
  have ent: "entry_of ?m1 n = (if n = name p then Some (parent p, []) else entry_of m n)" for n
    by (simp add: entry_of_def AList.update_conv')
  have 1: "distinct (map fst (plot_filename_paths ?m1))"
    using regD1 [OF ok] by (simp add: AList.distinct_update)
  have 2: "\<exists>ds'. entry_of ?m1 (name q) = Some (parent q, ds')" if "q \<in> published ?m1 \<union> insert p R" for q
  proof (cases "q = p")
    case True
    then show ?thesis by (simp add: ent)
  next
    case False
    then have "q \<in> published m \<union> R" using that pub by auto
    then obtain ds' where q: "entry_of m (name q) = Some (parent q, ds')"
      using regD2 [OF ok] by blast
    then have "name q \<noteq> name p" using entry by auto
    then show ?thesis using q by (simp add: ent)
  qed
  have 3: "Path d n \<in> published ?m1 \<union> insert p R \<and> d \<notin> set ds'"
    if "entry_of ?m1 n = Some (d, ds')" for n d ds'
  proof (cases "n = name p")
    case True
    then have "d = parent p" "ds' = []" using that by (auto simp: ent)
    moreover have "Path (parent p) (name p) = p" by (cases p) simp
    ultimately show ?thesis using True by simp
  next
    case False
    then have "entry_of m n = Some (d, ds')" using that by (simp add: ent)
    then have "Path d n \<in> published m \<union> R \<and> d \<notin> set ds'" by (rule regD3 [OF ok])
    then show ?thesis using pub by auto
  qed
  show ?thesis unfolding registry_ok_with_def using 1 2 3 by blast
qed

lemma ppf_registry:
  assumes ok: "registry_ok_with R m" and fname: "get_filename (prover e) = p"
    and fresh: "p \<notin> published m \<union> R"
  shows "registry_ok_with (R \<union> (case fst (post_process_file now p st e m) of
                                   None \<Rightarrow> {} | Some i \<Rightarrow> {p}))
           (snd (post_process_file now p st e m))"
  by (rule ppf_all_cases
      [where Q = "\<lambda>x. registry_ok_with (R \<union> (case fst x of None \<Rightarrow> {} | Some i \<Rightarrow> {p})) (snd x)"])
    (use assms in \<open>simp_all add: registry_step_reject registry_step_dup registry_step_new\<close>)

lemma publish_all_Cons:
  "publish_all now ((dec, p, st, e) # ws) m =
     (let m0 = (if dec then m\<lparr>cache := Cache_update p e (cache m)\<rparr> else m);
          x = post_process_file now p st e m0
      in ((case fst x of None \<Rightarrow> [] | Some i \<Rightarrow> [(p, i)]) @ fst (publish_all now ws (snd x)),
          snd (publish_all now ws (snd x))))"
  by (simp add: split_beta Let_def)

lemma registry_cache_irrelevant [simp]:
  "registry_ok_with R (m\<lparr>cache := c\<rparr>) = registry_ok_with R m"
  by (simp add: registry_ok_with_def entry_of_def published_def)

lemma same_frame_published: "same_frame m m1 \<Longrightarrow> published m1 = published m"
  by (simp add: same_frame_def published_def)

lemma same_frame_accepts: "same_frame m m1 \<Longrightarrow> accepts_keys m1 k = accepts_keys m k"
  by (rule accepts_keys_cong) (simp_all add: same_frame_def)

lemma publish_all_adds_sub:
  "fst ` set (fst (publish_all now ws m)) \<subseteq> (\<lambda>w. fst (snd w)) ` set ws"
proof (induction ws arbitrary: m)
  case Nil
  show ?case by simp
next
  case (Cons w ws)
  obtain dec p st e where w: "w = (dec, p, st, e)" by (cases w)
  show ?case
    unfolding w publish_all_Cons Let_def
    using Cons.IH by (auto split: option.splits)
qed

lemma publish_all_registry:
  assumes "registry_ok_with R m" and "distinct (map (\<lambda>w. fst (snd w)) ws)"
    and "\<forall>(dec, p, st, e) \<in> set ws. get_filename (prover e) = p \<and> p \<notin> published m \<union> R"
  shows "registry_ok_with (R \<union> fst ` set (fst (publish_all now ws m)))
           (snd (publish_all now ws m))"
  using assms
proof (induction ws arbitrary: m R)
  case Nil
  then show ?case by simp
next
  case (Cons w ws)
  obtain dec p st e where w: "w = (dec, p, st, e)" by (cases w)
  let ?m0 = "if dec then m\<lparr>cache := Cache_update p e (cache m)\<rparr> else m"
  let ?x = "post_process_file now p st e ?m0"
  let ?X = "case fst ?x of None \<Rightarrow> {} | Some i \<Rightarrow> {p}"
  have fn: "get_filename (prover e) = p" and fresh: "p \<notin> published m \<union> R"
    using Cons.prems(3) w by auto
  have ok0: "registry_ok_with R ?m0" using Cons.prems(1) by simp
  have pub0: "published ?m0 = published m" by (simp add: published_def)
  have step: "registry_ok_with (R \<union> ?X) (snd ?x)"
    using ppf_registry [OF ok0 fn, of now st] fresh pub0 by simp
  have pub1: "published (snd ?x) = published m"
    using same_frame_published [OF ppf_frame [of ?m0 now p st e]] pub0 by simp
  have dist: "distinct (map (\<lambda>w. fst (snd w)) ws)" and notin: "p \<notin> (\<lambda>w. fst (snd w)) ` set ws"
    using Cons.prems(2) w by auto
  have items: "\<forall>(dec', p', st', e') \<in> set ws.
      get_filename (prover e') = p' \<and> p' \<notin> published (snd ?x) \<union> (R \<union> ?X)"
  proof (clarify)
    fix dec' p' st' e'
    assume mem: "(dec', p', st', e') \<in> set ws"
    then have "get_filename (prover e') = p'" and "p' \<notin> published m \<union> R"
      using Cons.prems(3) by auto
    moreover have "p' \<noteq> p" using mem notin by force
    ultimately show "get_filename (prover e') = p' \<and> p' \<notin> published (snd ?x) \<union> (R \<union> ?X)"
      using pub1 by (auto split: option.splits)
  qed
  have "registry_ok_with ((R \<union> ?X) \<union> fst ` set (fst (publish_all now ws (snd ?x))))
          (snd (publish_all now ws (snd ?x)))"
    by (rule Cons.IH [OF step dist items])
  moreover have "(R \<union> ?X) \<union> fst ` set (fst (publish_all now ws (snd ?x)))
      = R \<union> fst ` set (fst (publish_all now (w # ws) m))"
    unfolding w publish_all_Cons Let_def by (auto split: option.splits)
  moreover have "snd (publish_all now (w # ws) m) = snd (publish_all now ws (snd ?x))"
    unfolding w publish_all_Cons Let_def by simp
  ultimately show ?case by simp
qed

lemma ppf_covers:
  assumes "accepts_keys m (keys e)" and "get_filename (prover e) = p"
  shows "fst (post_process_file now p st e m) \<noteq> None \<or> recorded (snd (post_process_file now p st e m)) p"
  by (rule ppf_all_cases
      [where Q = "\<lambda>x. fst x \<noteq> None \<or> recorded (snd x) p"])
    (use assms in \<open>auto simp: recorded_def entry_of_def AList.update_conv'\<close>)

lemma publish_all_covers:
  assumes "\<forall>(dec, p, st, e) \<in> set ws. get_filename (prover e) = p"
    and "(dec, p, st, e) \<in> set ws" and "accepts_keys m (keys e)"
  shows "p \<in> fst ` set (fst (publish_all now ws m)) \<or> recorded (snd (publish_all now ws m)) p"
  using assms
proof (induction ws arbitrary: m)
  case Nil
  then show ?case by simp
next
  case (Cons w ws)
  obtain dec' p' st' e' where w: "w = (dec', p', st', e')" by (cases w)
  let ?m0 = "if dec' then m\<lparr>cache := Cache_update p' e' (cache m)\<rparr> else m"
  let ?x = "post_process_file now p' st' e' ?m0"
  have frame0: "same_frame m ?m0" by simp
  have frame1: "same_frame m (snd ?x)"
    using same_frame_trans [OF frame0 ppf_frame [of ?m0 now p' st' e']] .
  have fst_eq: "fst (publish_all now (w # ws) m)
      = (case fst ?x of None \<Rightarrow> [] | Some i \<Rightarrow> [(p', i)]) @ fst (publish_all now ws (snd ?x))"
    and snd_eq: "snd (publish_all now (w # ws) m) = snd (publish_all now ws (snd ?x))"
    unfolding w publish_all_Cons Let_def by simp_all
  show ?case
  proof (cases "(dec, p, st, e) = w")
    case True
    then have eqs: "dec' = dec" "p' = p" "st' = st" "e' = e" using w by auto
    have "accepts_keys ?m0 (keys e)"
      using Cons.prems(3) same_frame_accepts [OF frame0] by simp
    moreover have "get_filename (prover e) = p" using Cons.prems(1) True by auto
    ultimately have "fst ?x \<noteq> None \<or> recorded (snd ?x) p"
      using ppf_covers [of ?m0 e p now st'] eqs by simp
    then show ?thesis
    proof
      assume "fst ?x \<noteq> None"
      then show ?thesis unfolding fst_eq using eqs by (auto split: option.splits)
    next
      assume "recorded (snd ?x) p"
      then have "recorded (snd (publish_all now ws (snd ?x))) p"
        using entries_grow_recorded [OF publish_all_entries_grow] by blast
      then show ?thesis unfolding snd_eq by simp
    qed
  next
    case False
    then have mem: "(dec, p, st, e) \<in> set ws" using Cons.prems(2) by auto
    have "accepts_keys (snd ?x) (keys e)"
      using Cons.prems(3) same_frame_accepts [OF frame1] by simp
    then have "p \<in> fst ` set (fst (publish_all now ws (snd ?x)))
        \<or> recorded (snd (publish_all now ws (snd ?x))) p"
      using Cons.IH [of "snd ?x"] Cons.prems(1) mem by auto
    then show ?thesis unfolding fst_eq snd_eq by auto
  qed
qed

lemma publish_all_idle:
  assumes "\<forall>(dec, p, st, e) \<in> set ws. \<not> accepts_keys m (keys e)"
  shows "fst (publish_all now ws m) = [] \<and>
         plot_filename_paths (snd (publish_all now ws m)) = plot_filename_paths m"
  using assms
proof (induction ws arbitrary: m)
  case Nil
  then show ?case by simp
next
  case (Cons w ws)
  obtain dec p st e where w: "w = (dec, p, st, e)" by (cases w)
  let ?m0 = "if dec then m\<lparr>cache := Cache_update p e (cache m)\<rparr> else m"
  have frame0: "same_frame m ?m0" by simp
  have rej: "\<not> accepts_keys ?m0 (keys e)"
    using Cons.prems w same_frame_accepts [OF frame0] by auto
  let ?m1 = "?m0\<lparr>no_key_filenames := insert p (no_key_filenames ?m0)\<rparr>"
  have x: "post_process_file now p st e ?m0 = (None, ?m1)"
    using ppf_reject [OF rej] by simp
  have frame1: "same_frame m ?m1" by (simp add: same_frame_def Cache_update_def)
  have "\<forall>(dec, p, st, e) \<in> set ws. \<not> accepts_keys ?m1 (keys e)"
    using Cons.prems same_frame_accepts [OF frame1] by auto
  then have "fst (publish_all now ws ?m1) = [] \<and>
         plot_filename_paths (snd (publish_all now ws ?m1)) = plot_filename_paths ?m1"
    by (rule Cons.IH)
  then show ?case
    unfolding w publish_all_Cons Let_def x by simp
qed

section \<open>refresh_batch in terms of work items\<close>

lemma traverse_all_decoded:
  assumes "traverse (process_memo env) (map (\<lambda>(p, st, pr). (p, get_memo pr)) ms) = Inr results"
  shows "\<forall>(p, st, pr) \<in> set ms. \<exists>k. process_memo env (p, get_memo pr) = Inr (p, Some k)"
  using assms
proof (induction ms arbitrary: results)
  case Nil
  then show ?case by simp
next
  case (Cons a ms)
  obtain p st pr where a: "a = (p, st, pr)" by (cases a)
  from Cons.prems a obtain x rest where
    x: "process_memo env (p, get_memo pr) = Inr x"
    and rest: "traverse (process_memo env) (map (\<lambda>(p, st, pr). (p, get_memo pr)) ms) = Inr rest"
    by (auto split: sum.splits)
  obtain k where "x = (p, Some k)" using process_memo_result [OF x] by blast
  then show ?case using Cons.IH [OF rest] x a by auto
qed

lemma queued_lookups:
  assumes "distinct (map fst ms)"
  shows "\<forall>(p, st, pr) \<in> set ms.
           map_of (provers (queue_misses ms l)) p = Some pr \<and>
           map_of (stat_infos (queue_misses ms l)) p = Some st"
proof (clarify)
  fix p st pr
  assume mem: "(p, st, pr) \<in> set ms"
  have d1: "distinct (map fst (map (\<lambda>(p, st, pr). (p, pr)) ms))"
    and d2: "distinct (map fst (map (\<lambda>(p, st, pr). (p, st)) ms))"
    using assms by (simp_all add: comp_def split_beta)
  have m1: "(p, pr) \<in> set (map (\<lambda>(p, st, pr). (p, pr)) ms)"
    and m2: "(p, st) \<in> set (map (\<lambda>(p, st, pr). (p, st)) ms)"
    using mem by force+
  show "map_of (provers (queue_misses ms l)) p = Some pr \<and>
        map_of (stat_infos (queue_misses ms l)) p = Some st"
    using map_of_dict_update_distinct [OF d1 m1] map_of_dict_update_distinct [OF d2 m2]
    by (simp add: queue_misses_eq)
qed

lemma refresh_batch_Raise:
  assumes wf: "\<forall>r \<in> set rs. wf_result r" and dist: "distinct (map fst (cache_misses rs))"
    and run: "refresh_batch env now rs m = (Raise e, m1)"
  shows "m1 = snd (publish_all now (cache_hits rs) m)"
proof -
  let ?l1 = "queue_misses (cache_misses rs)
               (add_all (fst (publish_all now (cache_hits rs) m)) batch_locals_init)"
  let ?m1 = "snd (publish_all now (cache_hits rs) m)"
  have col: "collect now rs batch_locals_init m = (None, ?l1, ?m1)"
    by (rule collect_publish [OF wf])
  have args: "process_args ?l1 = map (\<lambda>(p, st, pr). (p, get_memo pr)) (cache_misses rs)"
    by (simp add: queue_misses_eq add_all_eq batch_locals_init_def)
  show ?thesis
  proof (cases "traverse (process_memo env) (process_args ?l1)")
    case (Inl x)
    then show ?thesis using run col by (simp add: refresh_batch_def starmap_def)
  next
    case (Inr results)
    have "apply_memos now results ?l1 ?m1 =
           (None, add_all (fst (publish_all now (decoded_items env now (cache_misses rs)) ?m1)) ?l1,
            snd (publish_all now (decoded_items env now (cache_misses rs)) ?m1))"
      using Inr args queued_lookups [OF dist] by (intro apply_publish) auto
    then show ?thesis using run col Inr by (simp add: refresh_batch_def starmap_def)
  qed
qed

lemma refresh_batch_Return:
  assumes wf: "\<forall>r \<in> set rs. wf_result r" and dist: "distinct (map fst (cache_misses rs))"
    and run: "refresh_batch env now rs m = (Return r, m1)"
  shows "loaded r = map snd (fst (publish_all now (cache_hits rs @ decoded_items env now (cache_misses rs)) m)) \<and>
         removed r = [] \<and>
         m1 = (snd (publish_all now (cache_hits rs @ decoded_items env now (cache_misses rs)) m))
                \<lparr>plots := dict_update
                    (plots (snd (publish_all now (cache_hits rs @ decoded_items env now (cache_misses rs)) m)))
                    (dict_update [] (fst (publish_all now (cache_hits rs @ decoded_items env now (cache_misses rs)) m)))\<rparr> \<and>
         (\<forall>(p, st, pr) \<in> set (cache_misses rs). \<exists>k. process_memo env (p, get_memo pr) = Inr (p, Some k))"
proof -
  let ?l1 = "queue_misses (cache_misses rs)
               (add_all (fst (publish_all now (cache_hits rs) m)) batch_locals_init)"
  let ?m1 = "snd (publish_all now (cache_hits rs) m)"
  let ?ds = "decoded_items env now (cache_misses rs)"
  have col: "collect now rs batch_locals_init m = (None, ?l1, ?m1)"
    by (rule collect_publish [OF wf])
  have args: "process_args ?l1 = map (\<lambda>(p, st, pr). (p, get_memo pr)) (cache_misses rs)"
    by (simp add: queue_misses_eq add_all_eq batch_locals_init_def)
  show ?thesis
  proof (cases "traverse (process_memo env) (process_args ?l1)")
    case (Inl x)
    then show ?thesis using run col by (simp add: refresh_batch_def starmap_def)
  next
    case (Inr results)
    have app: "apply_memos now results ?l1 ?m1 =
           (None, add_all (fst (publish_all now ?ds ?m1)) ?l1, snd (publish_all now ?ds ?m1))"
      using Inr args queued_lookups [OF dist] by (intro apply_publish) auto
    have dec: "\<forall>(p, st, pr) \<in> set (cache_misses rs). \<exists>k. process_memo env (p, get_memo pr) = Inr (p, Some k)"
      using Inr args by (intro traverse_all_decoded [of env _ results]) simp
    show ?thesis
      using run col Inr app dec
      by (auto simp: refresh_batch_def starmap_def publish_all_append add_all_eq queue_misses_eq
          batch_locals_init_def dict_update_append)
  qed
qed

section \<open>The work items of a batch\<close>

lemma stat_and_open_prover:
  "stat_and_open env p = Inr (st, pr) \<Longrightarrow> get_filename pr = p \<and> DiskProver_open env p = Inr pr"
  by (auto simp: stat_and_open_def DiskProver_open_def split: sum.splits prod.splits)

lemma expected_result_cases:
  obtains (noop) "\<not> (takes_up env now m p)" "expected_result env now m p = PreProcessingResult_init p"
  | (full) st pr where "takes_up env now m p" "stat_and_open env p = Inr (st, pr)"
      "expected_result env now m p =
         \<lparr>result_path = p, result_cache_entry = map_of (data (cache m)) p,
           result_stat_info = Some st, result_prover = Some pr\<rparr>"
proof (cases "takes_up env now m p")
  case False
  then show ?thesis using noop by (simp add: expected_result_def)
next
  case True
  then obtain st pr where "stat_and_open env p = Inr (st, pr)"
    by (auto simp: takes_up_def split: sum.splits)
  then show ?thesis using True full by (simp add: expected_result_def)
qed

lemma wf_expected_result: "wf_result (expected_result env now m p)"
  by (cases rule: expected_result_cases [of env now m p])
    (simp_all add: wf_result_def PreProcessingResult_init_def)

lemma hits_mem:
  assumes "(dec, p, st, e) \<in> set (cache_hits (map (expected_result env now m) batch))"
  shows "\<not> dec \<and> p \<in> set batch \<and> takes_up env now m p \<and>
         (\<exists>pr. stat_and_open env p = Inr (st, pr)) \<and> map_of (data (cache m)) p = Some e"
  using assms
proof (induction batch)
  case Nil
  then show ?case by simp
next
  case (Cons q batch)
  show ?case
  proof (cases rule: expected_result_cases [of env now m q])
    case noop
    then show ?thesis using Cons by (simp add: PreProcessingResult_init_def)
  next
    case (full st' pr')
    then show ?thesis using Cons by (cases "map_of (data (cache m)) q") auto
  qed
qed

lemma misses_mem:
  assumes "(p, st, pr) \<in> set (cache_misses (map (expected_result env now m) batch))"
  shows "p \<in> set batch \<and> takes_up env now m p \<and> stat_and_open env p = Inr (st, pr) \<and>
         map_of (data (cache m)) p = None"
  using assms
proof (induction batch)
  case Nil
  then show ?case by simp
next
  case (Cons q batch)
  show ?case
  proof (cases rule: expected_result_cases [of env now m q])
    case noop
    then show ?thesis using Cons by (simp add: PreProcessingResult_init_def)
  next
    case (full st' pr')
    then show ?thesis using Cons by (cases "map_of (data (cache m)) q") auto
  qed
qed

lemma hits_intro:
  assumes "p \<in> set batch" "takes_up env now m p" "stat_and_open env p = Inr (st, pr)"
    "map_of (data (cache m)) p = Some e"
  shows "(False, p, st, e) \<in> set (cache_hits (map (expected_result env now m) batch))"
  using assms(1)
proof (induction batch)
  case Nil
  then show ?case by simp
next
  case (Cons q batch)
  show ?case
  proof (cases "q = p")
    case True
    then show ?thesis using assms(2-4) by (simp add: expected_result_def)
  next
    case False
    then have "(False, p, st, e) \<in> set (cache_hits (map (expected_result env now m) batch))"
      using Cons by simp
    then show ?thesis by (auto split: option.splits)
  qed
qed

lemma misses_intro:
  assumes "p \<in> set batch" "takes_up env now m p" "stat_and_open env p = Inr (st, pr)"
    "map_of (data (cache m)) p = None"
  shows "(p, st, pr) \<in> set (cache_misses (map (expected_result env now m) batch))"
  using assms(1)
proof (induction batch)
  case Nil
  then show ?case by simp
next
  case (Cons q batch)
  show ?case
  proof (cases "q = p")
    case True
    then show ?thesis using assms(2-4) by (simp add: expected_result_def)
  next
    case False
    then have "(p, st, pr) \<in> set (cache_misses (map (expected_result env now m) batch))"
      using Cons by simp
    then show ?thesis by (auto split: option.splits)
  qed
qed

lemma decoded_items_Nil [simp]: "decoded_items env now [] = []"
  by (simp add: decoded_items_def)

lemma decoded_items_Cons:
  "decoded_items env now ((p, st, pr) # ms) =
     (case process_memo env (p, get_memo pr) of
        Inl e \<Rightarrow> []
      | Inr x \<Rightarrow> (case snd x of None \<Rightarrow> []
                   | Some k \<Rightarrow> [(True, p, st, \<lparr>prover = pr, keys = k, last_use = now\<rparr>)]))
     @ decoded_items env now ms"
  by (simp add: decoded_items_def split: sum.splits prod.splits)

lemma decoded_mem:
  assumes "(dec, p, st, e) \<in> set (decoded_items env now ms)"
  shows "dec \<and> (\<exists>pr k. (p, st, pr) \<in> set ms \<and> process_memo env (p, get_memo pr) = Inr (p, Some k) \<and>
           e = \<lparr>prover = pr, keys = k, last_use = now\<rparr>)"
  using assms
proof (induction ms)
  case Nil
  then show ?case by simp
next
  case (Cons a ms)
  obtain p' st' pr' where a: "a = (p', st', pr')" by (cases a)
  show ?case
  proof (cases "(dec, p, st, e) \<in> set (decoded_items env now ms)")
    case True
    then show ?thesis using Cons.IH by auto
  next
    case False
    then have x: "(dec, p, st, e) \<in> set (case process_memo env (p', get_memo pr') of
        Inl e \<Rightarrow> []
      | Inr x \<Rightarrow> (case snd x of None \<Rightarrow> []
                   | Some k \<Rightarrow> [(True, p', st', \<lparr>prover = pr', keys = k, last_use = now\<rparr>)]))"
      using Cons.prems a by (simp add: decoded_items_Cons)
    show ?thesis
    proof (cases "process_memo env (p', get_memo pr')")
      case (Inl y)
      then show ?thesis using x by simp
    next
      case (Inr y)
      then obtain k where "y = (p', Some k)" using process_memo_result by blast
      then show ?thesis using x Inr a by auto
    qed
  qed
qed

lemma decoded_intro:
  assumes "(p, st, pr) \<in> set ms" "process_memo env (p, get_memo pr) = Inr (p, Some k)"
  shows "(True, p, st, \<lparr>prover = pr, keys = k, last_use = now\<rparr>) \<in> set (decoded_items env now ms)"
  using assms
proof (induction ms)
  case Nil
  then show ?case by simp
next
  case (Cons a ms)
  obtain p' st' pr' where a: "a = (p', st', pr')" by (cases a)
  show ?case
  proof (cases "a = (p, st, pr)")
    case True
    then show ?thesis using Cons.prems(2) a by (simp add: decoded_items_Cons)
  next
    case False
    then have "(p, st, pr) \<in> set ms" using Cons.prems(1) by auto
    then have "(True, p, st, \<lparr>prover = pr, keys = k, last_use = now\<rparr>)
                 \<in> set (decoded_items env now ms)"
      using Cons.IH Cons.prems(2) by simp
    then show ?thesis using a by (simp add: decoded_items_Cons)
  qed
qed

lemma result_path_expected [simp]: "result_path (expected_result env now m q) = q"
  by (cases rule: expected_result_cases [of env now m q])
    (simp_all add: PreProcessingResult_init_def)

lemma hits_distinct:
  assumes "distinct batch"
  shows "distinct (map (\<lambda>w. fst (snd w)) (cache_hits (map (expected_result env now m) batch)))"
  using assms
proof (induction batch)
  case Nil
  show ?case by simp
next
  case (Cons q batch)
  have notin: "q \<notin> (\<lambda>w. fst (snd w)) ` set (cache_hits (map (expected_result env now m) batch))"
    using hits_mem [of _ _ _ _ env now m batch] Cons.prems by fastforce
  show ?case
    using Cons notin
    by (cases "result_stat_info (expected_result env now m q)";
        cases "result_cache_entry (expected_result env now m q)") simp_all
qed

lemma misses_distinct:
  assumes "distinct batch"
  shows "distinct (map fst (cache_misses (map (expected_result env now m) batch)))"
  using assms
proof (induction batch)
  case Nil
  show ?case by simp
next
  case (Cons q batch)
  have notin: "q \<notin> fst ` set (cache_misses (map (expected_result env now m) batch))"
    using misses_mem [of _ _ _ env now m batch] Cons.prems by fastforce
  have path: "result_path (expected_result env now m q) = q"
    by (cases rule: expected_result_cases [of env now m q])
      (simp_all add: PreProcessingResult_init_def)
  show ?case
    using Cons notin path
    by (cases "result_stat_info (expected_result env now m q)";
        cases "result_cache_entry (expected_result env now m q)";
        cases "result_prover (expected_result env now m q)") simp_all
qed

lemma decoded_paths_distinct:
  "distinct (map fst ms) \<Longrightarrow> distinct (map (\<lambda>w. fst (snd w)) (decoded_items env now ms))"
proof (induction ms)
  case Nil
  show ?case by simp
next
  case (Cons a ms)
  obtain p st pr where a: "a = (p, st, pr)" by (cases a)
  have notin: "p \<notin> (\<lambda>w. fst (snd w)) ` set (decoded_items env now ms)"
    using decoded_mem [of _ _ _ _ env now ms] Cons.prems a by force
  show ?case
    using Cons notin a
    by (auto simp: decoded_items_Cons split: sum.splits option.splits)
qed

lemma batch_items_distinct:
  assumes "distinct batch"
  shows "distinct (map (\<lambda>w. fst (snd w)) (batch_items env now m batch))"
proof -
  let ?rs = "map (expected_result env now m) batch"
  have disj: False
    if w1: "w1 \<in> set (cache_hits ?rs)"
      and w2: "w2 \<in> set (decoded_items env now (cache_misses ?rs))"
      and eq: "fst (snd w1) = fst (snd w2)" for w1 w2
  proof -
    obtain d1 p1 s1 e1 where x1: "w1 = (d1, p1, s1, e1)" by (cases w1)
    obtain d2 p2 s2 e2 where x2: "w2 = (d2, p2, s2, e2)" by (cases w2)
    have "map_of (data (cache m)) p1 = Some e1" using hits_mem w1 x1 by blast
    moreover obtain pr where "(p2, s2, pr) \<in> set (cache_misses ?rs)"
      using decoded_mem w2 x2 by blast
    then have "map_of (data (cache m)) p2 = None" using misses_mem by blast
    ultimately show False using eq x1 x2 by simp
  qed
  have "(\<lambda>w. fst (snd w)) ` set (cache_hits ?rs) \<inter>
        (\<lambda>w. fst (snd w)) ` set (decoded_items env now (cache_misses ?rs)) = {}"
    using disj by blast
  then show ?thesis
    using hits_distinct [OF assms] decoded_paths_distinct [OF misses_distinct [OF assms]]
    by (simp add: batch_items_def)
qed

lemma decoded_keys_of_memo:
  assumes "stat_and_open env p = Inr (st, pr)"
    and "process_memo env (p, get_memo pr) = Inr (p, Some k)"
  shows "decoded_keys env p = Some k"
  using assms stat_and_open_prover [OF assms(1)] by (simp add: decoded_keys_def)

lemma batch_items_props:
  assumes "cache_ok m" and "(dec, p, st, e) \<in> set (batch_items env now m batch)"
  shows "p \<in> set batch \<and> takes_up env now m p \<and> get_filename (prover e) = p \<and>
         (\<exists>pr. stat_and_open env p = Inr (st, pr)) \<and>
         (if dec then decoded_keys env p = Some (keys e) \<and> map_of (data (cache m)) p = None
          else map_of (data (cache m)) p = Some e)"
proof -
  let ?rs = "map (expected_result env now m) batch"
  from assms(2) consider (hit) "(dec, p, st, e) \<in> set (cache_hits ?rs)"
    | (miss) "(dec, p, st, e) \<in> set (decoded_items env now (cache_misses ?rs))"
    by (auto simp: batch_items_def)
  then show ?thesis
  proof cases
    case hit
    have h: "\<not> dec \<and> p \<in> set batch \<and> takes_up env now m p \<and>
         (\<exists>pr. stat_and_open env p = Inr (st, pr)) \<and> map_of (data (cache m)) p = Some e"
      using hits_mem [OF hit] .
    then have "get_filename (prover e) = p" using assms(1) by (auto simp: cache_ok_def)
    then show ?thesis using h by simp
  next
    case miss
    obtain pr k where dec: dec and mem: "(p, st, pr) \<in> set (cache_misses ?rs)"
      and pm: "process_memo env (p, get_memo pr) = Inr (p, Some k)"
      and e: "e = \<lparr>prover = pr, keys = k, last_use = now\<rparr>"
      using decoded_mem [OF miss] by blast
    have ms: "p \<in> set batch \<and> takes_up env now m p \<and> stat_and_open env p = Inr (st, pr) \<and>
         map_of (data (cache m)) p = None"
      using misses_mem [OF mem] .
    have "get_filename pr = p" using stat_and_open_prover ms by blast
    moreover have "decoded_keys env p = Some k" using decoded_keys_of_memo ms pm by blast
    ultimately show ?thesis using dec e ms by auto
  qed
qed

lemma batch_items_cover:
  assumes "p \<in> set batch" and "takes_up env now m p"
    and "\<forall>(p, st, pr) \<in> set (cache_misses (map (expected_result env now m) batch)).
           \<exists>k. process_memo env (p, get_memo pr) = Inr (p, Some k)"
  shows "\<exists>dec st e. (dec, p, st, e) \<in> set (batch_items env now m batch) \<and>
           (case map_of (data (cache m)) p of
              Some e' \<Rightarrow> keys e = keys e'
            | None \<Rightarrow> decoded_keys env p = Some (keys e))"
proof -
  obtain st pr where so: "stat_and_open env p = Inr (st, pr)"
    using assms(2) by (auto simp: takes_up_def split: sum.splits)
  show ?thesis
  proof (cases "map_of (data (cache m)) p")
    case (Some e)
    have "(False, p, st, e) \<in> set (batch_items env now m batch)"
      using hits_intro [OF assms(1,2) so Some] by (simp add: batch_items_def)
    then show ?thesis using Some by force
  next
    case None
    have mem: "(p, st, pr) \<in> set (cache_misses (map (expected_result env now m) batch))"
      using misses_intro [OF assms(1,2) so None] .
    then obtain k where pm: "process_memo env (p, get_memo pr) = Inr (p, Some k)"
      using assms(3) by auto
    have "(True, p, st, \<lparr>prover = pr, keys = k, last_use = now\<rparr>)
            \<in> set (batch_items env now m batch)"
      using decoded_intro [OF mem pm] by (simp add: batch_items_def)
    moreover have "decoded_keys env p = Some k" using decoded_keys_of_memo [OF so pm] .
    ultimately show ?thesis using None by force
  qed
qed

section \<open>One batch\<close>

lemma run_batch_Return:
  assumes "distinct batch" and "run_batch env now batch m = (Return r, m2)"
  obtains f adds m1 where
    "\<forall>q. q \<notin> set batch \<longrightarrow> map_of f q = map_of (failed_to_open_filenames m) q"
    "publish_all now (batch_items env now m batch) (m\<lparr>failed_to_open_filenames := f\<rparr>) = (adds, m1)"
    "loaded r = map snd adds" "removed r = []"
    "m2 = m1\<lparr>plots := dict_update (plots m1) (dict_update [] adds)\<rparr>"
    "\<forall>(p, st, pr) \<in> set (cache_misses (map (expected_result env now m) batch)).
       \<exists>k. process_memo env (p, get_memo pr) = Inr (p, Some k)"
proof -
  let ?rs = "map (expected_result env now m) batch"
  obtain f where f: "snd (pre_process_batch env now batch m) = m\<lparr>failed_to_open_filenames := f\<rparr>"
    and same: "\<forall>q. q \<notin> set batch \<longrightarrow> map_of f q = map_of (failed_to_open_filenames m) q"
    using pre_process_batch_state [of env now batch m] by blast
  have rs: "fst (pre_process_batch env now batch m) = ?rs"
    by (rule pre_process_batch_results [OF assms(1)])
  have run: "refresh_batch env now ?rs (m\<lparr>failed_to_open_filenames := f\<rparr>) = (Return r, m2)"
    using assms(2) f rs by (simp add: run_batch_def)
  have wf: "\<forall>r \<in> set ?rs. wf_result r" by (auto simp: wf_expected_result)
  obtain adds m1 where pa:
    "publish_all now (batch_items env now m batch) (m\<lparr>failed_to_open_filenames := f\<rparr>) = (adds, m1)"
    by (cases "publish_all now (batch_items env now m batch) (m\<lparr>failed_to_open_filenames := f\<rparr>)")
  show ?thesis
    using refresh_batch_Return [OF wf misses_distinct [OF assms(1)] run] pa same
    by (intro that [of f adds m1]) (simp_all add: batch_items_def)
qed

lemma run_batch_Raise:
  assumes "distinct batch" and "run_batch env now batch m = (Raise x, m2)"
  obtains f where
    "m2 = snd (publish_all now (cache_hits (map (expected_result env now m) batch))
                 (m\<lparr>failed_to_open_filenames := f\<rparr>))"
proof -
  let ?rs = "map (expected_result env now m) batch"
  obtain f where f: "snd (pre_process_batch env now batch m) = m\<lparr>failed_to_open_filenames := f\<rparr>"
    using pre_process_batch_state [of env now batch m] by blast
  have rs: "fst (pre_process_batch env now batch m) = ?rs"
    by (rule pre_process_batch_results [OF assms(1)])
  have run: "refresh_batch env now ?rs (m\<lparr>failed_to_open_filenames := f\<rparr>) = (Raise x, m2)"
    using assms(2) f rs by (simp add: run_batch_def)
  have wf: "\<forall>r \<in> set ?rs. wf_result r" by (auto simp: wf_expected_result)
  show ?thesis
    using refresh_batch_Raise [OF wf misses_distinct [OF assms(1)] run] by (rule that)
qed

lemma same_config_refl [simp]: "same_config m m"
  by (simp add: same_config_def)

lemma same_config_trans: "same_config m m1 \<Longrightarrow> same_config m1 m2 \<Longrightarrow> same_config m m2"
  by (simp add: same_config_def)

lemma same_frame_config: "same_frame m m1 \<Longrightarrow> same_config m m1"
  by (simp add: same_frame_def same_config_def)

lemma dom_dict_update: "dom (map_of (dict_update d xs)) = dom (map_of d) \<union> fst ` set xs"
proof (induction xs arbitrary: d)
  case Nil
  show ?case by simp
next
  case (Cons a xs)
  obtain k v where a: "a = (k, v)" by (cases a)
  have "dom (map_of (dict_update d (a # xs))) = dom (map_of (AList.update k v d)) \<union> fst ` set xs"
    using Cons.IH [of "AList.update k v d"] a by simp
  moreover have "dom (map_of (AList.update k v d)) = insert k (dom (map_of d))"
    by (simp add: AList.update_conv')
  ultimately show ?case using a by auto
qed

lemma keys_dict_update: "fst ` set (dict_update d xs) = fst ` set d \<union> fst ` set xs"
  using dom_dict_update [of d xs] by (simp add: dom_map_of_conv_image_fst)

lemma farmable_cong:
  assumes "same_config m m1" and "map_of (data (cache m1)) p = map_of (data (cache m)) p"
  shows "farmable env m1 p = farmable env m p"
proof -
  have "accepts_keys m1 k = accepts_keys m k" for k
    using assms(1) by (intro accepts_keys_cong) (simp_all add: same_config_def)
  moreover have "filtered_out m1 p = filtered_out m p"
    using assms(1) by (simp add: filtered_out_def same_config_def)
  moreover have "refreshing_enabled m1 = refreshing_enabled m"
    using assms(1) by (simp add: same_config_def)
  ultimately show ?thesis
    using assms(2) by (simp add: farmable_def cong: sum.case_cong option.case_cong prod.case_cong)
qed

lemma in_backoff_cong:
  assumes "same_config m m1"
    and "map_of (failed_to_open_filenames m1) p = map_of (failed_to_open_filenames m) p"
  shows "in_backoff now m1 p = in_backoff now m p"
  using assms by (simp add: in_backoff_def same_config_def cong: option.case_cong)

lemma farmable_takes_up:
  assumes "farmable env m p" and "\<not> in_backoff now m p" and "\<not> covered m p"
  shows "takes_up env now m p"
  using assms
  by (auto simp: farmable_def takes_up_def covered_def split: sum.splits prod.splits)

lemma farmable_keys:
  assumes "farmable env m p"
  shows "\<exists>k. (case map_of (data (cache m)) p of Some e \<Rightarrow> Some (keys e) | None \<Rightarrow> decoded_keys env p) = Some k
           \<and> accepts_keys m k"
  using assms by (auto simp: farmable_def split: sum.splits prod.splits option.splits)

text \<open>The state in which the items of a batch are post-processed, and the state after it.\<close>

lemma batch_published:
  assumes "publish_all now ws m0 = (adds, m1)"
  shows "published (m1\<lparr>plots := dict_update (plots m1) (dict_update [] adds)\<rparr>)
           = published m0 \<union> fst ` set adds"
proof -
  have "published m1 = published m0"
    using same_frame_published [OF publish_all_frame [of m0 now ws]] assms by simp
  then show ?thesis by (simp add: published_def dom_dict_update keys_dict_update)
qed

lemma registry_ok_publish:
  assumes "registry_ok_with R m1" and "dom (map_of pl) = published m1 \<union> R"
  shows "registry_ok (m1\<lparr>plots := pl\<rparr>)"
proof -
  have pub: "published (m1\<lparr>plots := pl\<rparr>) \<union> {} = published m1 \<union> R"
    using assms(2) by (simp add: published_def)
  have ent: "entry_of (m1\<lparr>plots := pl\<rparr>) = entry_of m1" by (simp add: entry_of_def fun_eq_iff)
  show ?thesis
    unfolding registry_ok_def registry_ok_with_def pub ent
    using assms(1) unfolding registry_ok_with_def by simp
qed

section \<open>What a batch keeps and achieves\<close>

lemma failed_update_simps [simp]:
  "cache_ok (m\<lparr>failed_to_open_filenames := f\<rparr>) = cache_ok m"
  "cache_fresh env (m\<lparr>failed_to_open_filenames := f\<rparr>) = cache_fresh env m"
  "published (m\<lparr>failed_to_open_filenames := f\<rparr>) = published m"
  "entry_of (m\<lparr>failed_to_open_filenames := f\<rparr>) = entry_of m"
  "registry_ok_with R (m\<lparr>failed_to_open_filenames := f\<rparr>) = registry_ok_with R m"
  "registry_within P (m\<lparr>failed_to_open_filenames := f\<rparr>) = registry_within P m"
  "accepts_keys (m\<lparr>failed_to_open_filenames := f\<rparr>) = accepts_keys m"
  "same_config m (m\<lparr>failed_to_open_filenames := f\<rparr>)"
  "entries_grow m (m\<lparr>failed_to_open_filenames := f\<rparr>)"
  by (simp_all add: cache_ok_def cache_fresh_def published_def entry_of_def registry_ok_with_def
      registry_within_def accepts_keys_def same_config_def entries_grow_def fun_eq_iff
      cong: option.case_cong)

lemma plots_update_simps [simp]:
  "cache_ok (m\<lparr>plots := pl\<rparr>) = cache_ok m"
  "cache_fresh env (m\<lparr>plots := pl\<rparr>) = cache_fresh env m"
  "entry_of (m\<lparr>plots := pl\<rparr>) = entry_of m"
  "registry_within P (m\<lparr>plots := pl\<rparr>) = registry_within P m"
  "recorded (m\<lparr>plots := pl\<rparr>) = recorded m"
  "same_config m (m\<lparr>plots := pl\<rparr>)"
  "entries_grow m (m\<lparr>plots := pl\<rparr>)"
  by (simp_all add: cache_ok_def cache_fresh_def entry_of_def registry_within_def recorded_def
      same_config_def entries_grow_def fun_eq_iff)

lemma batch_items_filename:
  assumes "cache_ok m"
  shows "\<forall>(dec, p, st, e) \<in> set (batch_items env now m batch). get_filename (prover e) = p"
  using batch_items_props [OF assms] by blast

lemma run_batch_cache_ok:
  assumes "distinct batch" and "cache_ok m" and "run_batch env now batch m = (out, m2)"
  shows "cache_ok m2"
proof (cases out)
  case (Return r)
  obtain f adds m1 where
    pa: "publish_all now (batch_items env now m batch) (m\<lparr>failed_to_open_filenames := f\<rparr>) = (adds, m1)"
    and m2: "m2 = m1\<lparr>plots := dict_update (plots m1) (dict_update [] adds)\<rparr>"
    using run_batch_Return [OF assms(1)] assms(3) Return by metis
  have "cache_ok (snd (publish_all now (batch_items env now m batch) (m\<lparr>failed_to_open_filenames := f\<rparr>)))"
    using assms(2) batch_items_filename [OF assms(2)] by (intro publish_all_cache_ok) simp_all
  then show ?thesis using pa m2 by simp
next
  case (Raise x)
  obtain f where m2: "m2 = snd (publish_all now (cache_hits (map (expected_result env now m) batch))
                 (m\<lparr>failed_to_open_filenames := f\<rparr>))"
    using run_batch_Raise [OF assms(1)] assms(3) Raise by metis
  have "\<forall>(dec, p, st, e) \<in> set (cache_hits (map (expected_result env now m) batch)).
          get_filename (prover e) = p"
    using batch_items_filename [OF assms(2), of env now batch] by (auto simp: batch_items_def)
  then show ?thesis unfolding m2 using assms(2) by (intro publish_all_cache_ok) simp_all
qed

lemma run_batch_cache_fresh:
  assumes "distinct batch" and "cache_ok m" and "cache_fresh env m"
    and "run_batch env now batch m = (out, m2)"
  shows "cache_fresh env m2"
proof -
  have items: "\<forall>(dec, p, st, e) \<in> set (batch_items env now m batch).
      dec \<longrightarrow> (\<forall>k. decoded_keys env p = Some k \<longrightarrow> keys e = k)"
    using batch_items_props [OF assms(2)] by fastforce
  show ?thesis
  proof (cases out)
    case (Return r)
    obtain f adds m1 where
      pa: "publish_all now (batch_items env now m batch) (m\<lparr>failed_to_open_filenames := f\<rparr>) = (adds, m1)"
      and m2: "m2 = m1\<lparr>plots := dict_update (plots m1) (dict_update [] adds)\<rparr>"
      using run_batch_Return [OF assms(1)] assms(4) Return by metis
    have "cache_fresh env (snd (publish_all now (batch_items env now m batch) (m\<lparr>failed_to_open_filenames := f\<rparr>)))"
      using assms(3) items by (intro publish_all_cache_fresh) simp_all
    then show ?thesis using pa m2 by simp
  next
    case (Raise x)
    obtain f where m2: "m2 = snd (publish_all now (cache_hits (map (expected_result env now m) batch))
                   (m\<lparr>failed_to_open_filenames := f\<rparr>))"
      using run_batch_Raise [OF assms(1)] assms(4) Raise by metis
    have "\<forall>(dec, p, st, e) \<in> set (cache_hits (map (expected_result env now m) batch)).
        dec \<longrightarrow> (\<forall>k. decoded_keys env p = Some k \<longrightarrow> keys e = k)"
      using items by (auto simp: batch_items_def)
    then show ?thesis unfolding m2 using assms(3) by (intro publish_all_cache_fresh) simp_all
  qed
qed

lemma batch_items_paths:
  "(\<lambda>w. fst (snd w)) ` set (batch_items env now m batch) \<subseteq> set batch"
proof
  fix q
  assume "q \<in> (\<lambda>w. fst (snd w)) ` set (batch_items env now m batch)"
  then obtain dec st e where "(dec, q, st, e) \<in> set (batch_items env now m batch)" by force
  then consider "(dec, q, st, e) \<in> set (cache_hits (map (expected_result env now m) batch))"
    | "(dec, q, st, e) \<in> set (decoded_items env now (cache_misses (map (expected_result env now m) batch)))"
    by (auto simp: batch_items_def)
  then show "q \<in> set batch"
  proof cases
    case 1
    then show ?thesis using hits_mem by blast
  next
    case 2
    then obtain pr where "(q, st, pr) \<in> set (cache_misses (map (expected_result env now m) batch))"
      using decoded_mem by blast
    then show ?thesis using misses_mem by blast
  qed
qed

lemma run_batch_config:
  assumes "distinct batch" and "run_batch env now batch m = (out, m2)"
  shows "same_config m m2"
proof (cases out)
  case (Return r)
  have run: "run_batch env now batch m = (Return r, m2)" using assms(2) Return by simp
  from assms(1) run obtain f adds m1 where
    same: "\<forall>q. q \<notin> set batch \<longrightarrow> map_of f q = map_of (failed_to_open_filenames m) q"
    and pa: "publish_all now (batch_items env now m batch) (m\<lparr>failed_to_open_filenames := f\<rparr>) = (adds, m1)"
    and ld: "loaded r = map snd adds" and rm: "removed r = []"
    and m2: "m2 = m1\<lparr>plots := dict_update (plots m1) (dict_update [] adds)\<rparr>"
    and dec: "\<forall>(p, st, pr) \<in> set (cache_misses (map (expected_result env now m) batch)).
       \<exists>k. process_memo env (p, get_memo pr) = Inr (p, Some k)"
    by (rule run_batch_Return)
  have "same_config (m\<lparr>failed_to_open_filenames := f\<rparr>) m1"
    using same_frame_config [OF publish_all_frame [of _ now "batch_items env now m batch"]] pa
    by (metis snd_conv)
  then show ?thesis unfolding m2 by (simp add: same_config_def)
next
  case (Raise x)
  have run: "run_batch env now batch m = (Raise x, m2)" using assms(2) Raise by simp
  from assms(1) run obtain f where m2: "m2 = snd (publish_all now (cache_hits (map (expected_result env now m) batch))
                 (m\<lparr>failed_to_open_filenames := f\<rparr>))"
    by (rule run_batch_Raise)
  have "same_config (m\<lparr>failed_to_open_filenames := f\<rparr>) m2"
    unfolding m2 by (rule same_frame_config [OF publish_all_frame])
  then show ?thesis by (simp add: same_config_def)
qed

lemma run_batch_registry_ok:
  assumes "distinct batch" and "cache_ok m" and "registry_ok m"
    and "run_batch env now batch m = (Return r, m2)"
  shows "registry_ok m2"
proof -
  from assms(1,4) obtain f adds m1 where
    same: "\<forall>q. q \<notin> set batch \<longrightarrow> map_of f q = map_of (failed_to_open_filenames m) q"
    and pa: "publish_all now (batch_items env now m batch) (m\<lparr>failed_to_open_filenames := f\<rparr>) = (adds, m1)"
    and ld: "loaded r = map snd adds" and rm: "removed r = []"
    and m2: "m2 = m1\<lparr>plots := dict_update (plots m1) (dict_update [] adds)\<rparr>"
    and dec: "\<forall>(p, st, pr) \<in> set (cache_misses (map (expected_result env now m) batch)).
       \<exists>k. process_memo env (p, get_memo pr) = Inr (p, Some k)"
    by (rule run_batch_Return)
  have items: "\<forall>(dec, p, st, e) \<in> set (batch_items env now m batch).
      get_filename (prover e) = p \<and> p \<notin> published (m\<lparr>failed_to_open_filenames := f\<rparr>) \<union> {}"
    using batch_items_props [OF assms(2)] by (fastforce simp: takes_up_def)
  have "registry_ok_with ({} \<union> fst ` set (fst (publish_all now (batch_items env now m batch) (m\<lparr>failed_to_open_filenames := f\<rparr>))))
          (snd (publish_all now (batch_items env now m batch) (m\<lparr>failed_to_open_filenames := f\<rparr>)))"
    using assms(3) batch_items_distinct [OF assms(1)] items
    by (intro publish_all_registry) (simp_all add: registry_ok_def)
  then have reg: "registry_ok_with (fst ` set adds) m1" using pa by simp
  have "published m1 = published (m\<lparr>failed_to_open_filenames := f\<rparr>)"
    using same_frame_published [OF publish_all_frame [of _ now "batch_items env now m batch"]] pa
    by (metis snd_conv)
  then have "dom (map_of (dict_update (plots m1) (dict_update [] adds))) = published m1 \<union> fst ` set adds"
    by (simp add: dom_dict_update keys_dict_update published_def)
  then show ?thesis unfolding m2 using reg by (rule registry_ok_publish [rotated])
qed

lemma run_batch_grow:
  assumes "distinct batch" and "run_batch env now batch m = (Return r, m2)"
  shows "entries_grow m m2 \<and> published m \<subseteq> published m2"
proof -
  from assms obtain f adds m1 where
    same: "\<forall>q. q \<notin> set batch \<longrightarrow> map_of f q = map_of (failed_to_open_filenames m) q"
    and pa: "publish_all now (batch_items env now m batch) (m\<lparr>failed_to_open_filenames := f\<rparr>) = (adds, m1)"
    and ld: "loaded r = map snd adds" and rm: "removed r = []"
    and m2: "m2 = m1\<lparr>plots := dict_update (plots m1) (dict_update [] adds)\<rparr>"
    and dec: "\<forall>(p, st, pr) \<in> set (cache_misses (map (expected_result env now m) batch)).
       \<exists>k. process_memo env (p, get_memo pr) = Inr (p, Some k)"
    by (rule run_batch_Return)
  have "entries_grow (m\<lparr>failed_to_open_filenames := f\<rparr>) m1"
    using publish_all_entries_grow [of _ now "batch_items env now m batch"] pa by (metis snd_conv)
  then have "entries_grow m m2"
    unfolding m2 by (simp add: entries_grow_def)
  moreover have "published m2 = published m \<union> fst ` set adds"
    unfolding m2 using batch_published [OF pa] by simp
  ultimately show ?thesis by auto
qed

lemma covered_grow:
  "entries_grow m m2 \<Longrightarrow> published m \<subseteq> published m2 \<Longrightarrow> covered m q \<Longrightarrow> covered m2 q"
  using entries_grow_recorded by (auto simp: covered_def)

lemma run_batch_untouched:
  assumes "distinct batch" and "run_batch env now batch m = (Return r, m2)" and "q \<notin> set batch"
  shows "map_of (data (cache m2)) q = map_of (data (cache m)) q \<and>
         map_of (failed_to_open_filenames m2) q = map_of (failed_to_open_filenames m) q"
proof -
  from assms(1,2) obtain f adds m1 where
    same: "\<forall>q. q \<notin> set batch \<longrightarrow> map_of f q = map_of (failed_to_open_filenames m) q"
    and pa: "publish_all now (batch_items env now m batch) (m\<lparr>failed_to_open_filenames := f\<rparr>) = (adds, m1)"
    and ld: "loaded r = map snd adds" and rm: "removed r = []"
    and m2: "m2 = m1\<lparr>plots := dict_update (plots m1) (dict_update [] adds)\<rparr>"
    and dec: "\<forall>(p, st, pr) \<in> set (cache_misses (map (expected_result env now m) batch)).
       \<exists>k. process_memo env (p, get_memo pr) = Inr (p, Some k)"
    by (rule run_batch_Return)
  have "q \<notin> (\<lambda>w. fst (snd w)) ` set (batch_items env now m batch)"
    using batch_items_paths assms(3) by blast
  then have "map_of (data (cache m1)) q = map_of (data (cache (m\<lparr>failed_to_open_filenames := f\<rparr>))) q \<and>
         map_of (failed_to_open_filenames m1) q
           = map_of (failed_to_open_filenames (m\<lparr>failed_to_open_filenames := f\<rparr>)) q"
    using publish_all_untouched [of q "batch_items env now m batch" now] pa by (metis snd_conv)
  then show ?thesis unfolding m2 using same assms(3) by simp
qed

lemma run_batch_covers:
  assumes "distinct batch" and "cache_ok m" and "run_batch env now batch m = (Return r, m2)"
    and "p \<in> set batch" and "farmable env m p" and "\<not> in_backoff now m p"
  shows "covered m2 p"
proof (cases "covered m p")
  case True
  then show ?thesis using run_batch_grow [OF assms(1,3)] covered_grow by blast
next
  case False
  from assms(1,3) obtain f adds m1 where
    same: "\<forall>q. q \<notin> set batch \<longrightarrow> map_of f q = map_of (failed_to_open_filenames m) q"
    and pa: "publish_all now (batch_items env now m batch) (m\<lparr>failed_to_open_filenames := f\<rparr>) = (adds, m1)"
    and ld: "loaded r = map snd adds" and rm: "removed r = []"
    and m2: "m2 = m1\<lparr>plots := dict_update (plots m1) (dict_update [] adds)\<rparr>"
    and dec: "\<forall>(p, st, pr) \<in> set (cache_misses (map (expected_result env now m) batch)).
       \<exists>k. process_memo env (p, get_memo pr) = Inr (p, Some k)"
    by (rule run_batch_Return)
  have tu: "takes_up env now m p" using farmable_takes_up [OF assms(5,6) False] .
  obtain dc st e where item: "(dc, p, st, e) \<in> set (batch_items env now m batch)"
    and ks: "(case map_of (data (cache m)) p of
              Some e' \<Rightarrow> keys e = keys e'
            | None \<Rightarrow> decoded_keys env p = Some (keys e))"
    using batch_items_cover [OF assms(4) tu dec] by blast
  obtain k where k: "(case map_of (data (cache m)) p of Some e \<Rightarrow> Some (keys e) | None \<Rightarrow> decoded_keys env p) = Some k"
    and acc: "accepts_keys m k"
    using farmable_keys [OF assms(5)] by blast
  have "keys e = k" using ks k by (cases "map_of (data (cache m)) p") simp_all
  then have acc': "accepts_keys (m\<lparr>failed_to_open_filenames := f\<rparr>) (keys e)" using acc by simp
  have fn: "\<forall>(dec, p, st, e) \<in> set (batch_items env now m batch). get_filename (prover e) = p"
    by (rule batch_items_filename [OF assms(2)])
  have "p \<in> fst ` set (fst (publish_all now (batch_items env now m batch) (m\<lparr>failed_to_open_filenames := f\<rparr>)))
        \<or> recorded (snd (publish_all now (batch_items env now m batch) (m\<lparr>failed_to_open_filenames := f\<rparr>))) p"
    by (rule publish_all_covers [OF fn item acc'])
  then have "p \<in> fst ` set adds \<or> recorded m1 p" using pa by simp
  moreover have "published m2 = published (m\<lparr>failed_to_open_filenames := f\<rparr>) \<union> fst ` set adds"
    unfolding m2 by (rule batch_published [OF pa])
  moreover have "recorded m2 = recorded m1" unfolding m2 by simp
  ultimately show ?thesis by (auto simp: covered_def)
qed

section \<open>The loop over the batches\<close>

lemma batch_loop_Cons:
  "batch_loop env now ((remaining_files, batch) # rest) total_result m =
     (case run_batch env now batch m of
        (Raise e, m2) \<Rightarrow> (Raise e, m2)
      | (Return batch_result, m2) \<Rightarrow>
          if \<not> refreshing_enabled m2 then (Return total_result, m2)
          else
            (let reported = batch_result\<lparr>remaining := remaining_files\<rparr>;
                 total1 = total_result\<lparr>loaded := loaded total_result @ loaded reported,
                            processed := processed total_result + processed reported\<rparr>
             in case refresh_callback env Batch_processed reported of
                  Some e \<Rightarrow> (Raise e, m2)
                | None \<Rightarrow>
                    if remaining_files = 0 then (Return total1, m2)
                    else batch_loop env now rest total1 m2))"
  by (simp add: run_batch_def split: prod.splits)

text \<open>A property that every batch keeps, whatever its outcome, holds after the loop.\<close>

lemma batch_loop_keeps:
  assumes "batch_loop env now bs total_result m = (out, m')"
    and "\<forall>b \<in> set bs. distinct (snd b)"
    and "Q m"
    and step: "\<And>batch m out m2. distinct batch \<Longrightarrow> Q m \<Longrightarrow> run_batch env now batch m = (out, m2) \<Longrightarrow> Q m2"
  shows "Q m'"
  using assms(1,2,3)
proof (induction bs arbitrary: total_result m)
  case Nil
  then show ?case by simp
next
  case (Cons b bs)
  obtain k batch where b: "b = (k, batch)" by (cases b)
  obtain o2 m2 where run: "run_batch env now batch m = (o2, m2)" by (cases "run_batch env now batch m")
  have d: "distinct batch" using Cons.prems(2) b by simp
  have q2: "Q m2" using step [OF d Cons.prems(3) run] .
  show ?case
  proof (cases o2)
    case (Raise e)
    then show ?thesis using Cons.prems(1) q2 unfolding b batch_loop_Cons run by simp
  next
    case (Return br)
    show ?thesis
    proof (cases "batch_loop env now bs
        (total_result\<lparr>loaded := loaded total_result @ loaded (br\<lparr>remaining := k\<rparr>),
                       processed := processed total_result + processed (br\<lparr>remaining := k\<rparr>)\<rparr>) m2 = (out, m')")
      case True
      then show ?thesis using Cons.IH [OF True _ q2] Cons.prems(2) by simp
    next
      case False
      then have "m' = m2" using Cons.prems(1) unfolding b batch_loop_Cons run Return
        by (simp add: Let_def split: if_splits option.splits)
      then show ?thesis using q2 by simp
    qed
  qed
qed

text \<open>A property that every returning batch keeps holds after a loop that returns.\<close>

lemma batch_loop_keeps_Return:
  assumes "batch_loop env now bs total_result m = (Return t, m')"
    and "\<forall>b \<in> set bs. distinct (snd b)"
    and "Q m"
    and step: "\<And>batch m r m2. distinct batch \<Longrightarrow> Q m \<Longrightarrow> run_batch env now batch m = (Return r, m2) \<Longrightarrow> Q m2"
  shows "Q m'"
  using assms(1,2,3)
proof (induction bs arbitrary: total_result m)
  case Nil
  then show ?case by simp
next
  case (Cons b bs)
  obtain k batch where b: "b = (k, batch)" by (cases b)
  obtain o2 m2 where run: "run_batch env now batch m = (o2, m2)" by (cases "run_batch env now batch m")
  have d: "distinct batch" using Cons.prems(2) b by simp
  show ?case
  proof (cases o2)
    case (Raise e)
    then show ?thesis using Cons.prems(1) unfolding b batch_loop_Cons run by simp
  next
    case (Return br)
    have q2: "Q m2" using step [OF d Cons.prems(3)] run Return by simp
    show ?thesis
    proof (cases "batch_loop env now bs
        (total_result\<lparr>loaded := loaded total_result @ loaded (br\<lparr>remaining := k\<rparr>),
                       processed := processed total_result + processed (br\<lparr>remaining := k\<rparr>)\<rparr>) m2 = (Return t, m')")
      case True
      then show ?thesis using Cons.IH [OF True _ q2] Cons.prems(2) by simp
    next
      case False
      then have "m' = m2" using Cons.prems(1) unfolding b batch_loop_Cons run Return
        by (simp add: Let_def split: if_splits option.splits)
      then show ?thesis using q2 by simp
    qed
  qed
qed

section \<open>Batches\<close>

lemma zero_only_last_tail: "zero_only_last (b # bs) \<Longrightarrow> zero_only_last bs"
  unfolding zero_only_last_def
proof (intro allI impI)
  fix i
  assume a: "\<forall>i. Suc i < length (b # bs) \<longrightarrow> fst ((b # bs) ! i) \<noteq> 0" and i: "Suc i < length bs"
  from a have "Suc (Suc i) < length (b # bs) \<longrightarrow> fst ((b # bs) ! Suc i) \<noteq> 0" by blast
  then show "fst (bs ! i) \<noteq> 0" using i by simp
qed

lemma zero_only_last_zero: "zero_only_last ((0, x) # bs) \<Longrightarrow> bs = []"
proof -
  assume "zero_only_last ((0, x) # bs)"
  then have "Suc 0 < length ((0, x) # bs) \<longrightarrow> fst (((0, x) # bs) ! 0) \<noteq> (0::nat)"
    unfolding zero_only_last_def by blast
  then show "bs = []" by simp
qed

lemma concat_slices:
  "concat (map (\<lambda>i. take n (drop (i * n) xs)) [0 ..< k]) = take (k * n) xs"
proof (induction k)
  case 0
  then show ?case by simp
next
  case (Suc k)
  have "take (k * n + n) xs = take (k * n) xs @ take n (drop (k * n) xs)"
    by (rule take_add)
  then show ?case using Suc by (simp add: add.commute)
qed

lemma slices_cover:
  assumes "0 < n"
  shows "length xs \<le> ((length xs + n - 1) div n) * n"
proof -
  have "(length xs + n - 1) mod n < n" using assms by simp
  moreover have "((length xs + n - 1) div n) * n + (length xs + n - 1) mod n = length xs + n - 1"
    by simp
  ultimately show ?thesis by linarith
qed

lemma list_to_batches_concat:
  assumes "list_to_batches xs batch_sz = Inr bs"
  shows "concat (map snd bs) = xs"
proof -
  have pos: "0 < nat batch_sz" and bs: "bs = map (\<lambda>i. (length xs - min (i * nat batch_sz + nat batch_sz) (length xs),
                         take (nat batch_sz) (drop (i * nat batch_sz) xs)))
                  [0 ..< (length xs + nat batch_sz - 1) div nat batch_sz]"
    using assms by (auto simp: list_to_batches_def Let_def split: if_splits)
  have "map snd bs = map (\<lambda>i. take (nat batch_sz) (drop (i * nat batch_sz) xs))
                  [0 ..< (length xs + nat batch_sz - 1) div nat batch_sz]"
    unfolding bs by simp
  then have "concat (map snd bs) = take (((length xs + nat batch_sz - 1) div nat batch_sz) * nat batch_sz) xs"
    by (simp only: concat_slices)
  then show ?thesis using slices_cover [OF pos, of xs] by simp
qed

lemma list_to_batches_zero_only_last:
  assumes "list_to_batches xs batch_sz = Inr bs"
  shows "zero_only_last bs"
proof -
  define n where "n = nat batch_sz"
  define k where "k = (length xs + n - 1) div n"
  have pos: "0 < n" and bs: "bs = map (\<lambda>i. (length xs - min (i * n + n) (length xs),
                         take n (drop (i * n) xs))) [0 ..< k]"
    using assms by (auto simp: list_to_batches_def Let_def n_def k_def split: if_splits)
  show ?thesis unfolding zero_only_last_def
  proof (intro allI impI)
    fix i
    assume "Suc i < length bs"
    then have i: "Suc i < k" using bs by simp
    have "k * n \<le> length xs + n - 1"
      unfolding k_def by (rule div_times_less_eq_dividend)
    moreover have "(i + 2) * n \<le> k * n" using i by (intro mult_le_mono1) simp
    ultimately have "(i + 2) * n \<le> length xs + n - 1" by linarith
    then have "i * n + n < length xs" using pos by (simp add: algebra_simps)
    then have "length xs - min (i * n + n) (length xs) \<noteq> 0" by simp
    then show "fst (bs ! i) \<noteq> 0" using i unfolding bs by simp
  qed
qed

lemma distinct_concat_mem:
  "distinct (concat xss) \<Longrightarrow> xs \<in> set xss \<Longrightarrow> distinct xs"
  by (induction xss) auto

lemma batch_loop_grow:
  assumes "batch_loop env now bs total_result m = (Return t, m')"
    and "\<forall>b \<in> set bs. distinct (snd b)"
  shows "entries_grow m m' \<and> published m \<subseteq> published m'"
proof (rule batch_loop_keeps_Return [OF assms, where Q = "\<lambda>x. entries_grow m x \<and> published m \<subseteq> published x"])
  show "entries_grow m m \<and> published m \<subseteq> published m" by (simp add: entries_grow_refl)
next
  fix batch x r m2
  assume d: "distinct batch" and q: "entries_grow m x \<and> published m \<subseteq> published x"
    and run: "run_batch env now batch x = (Return r, m2)"
  have "entries_grow x m2 \<and> published x \<subseteq> published m2" using d run by (rule run_batch_grow)
  then show "entries_grow m m2 \<and> published m \<subseteq> published m2"
    using q entries_grow_trans by blast
qed

lemma batch_loop_covers:
  assumes "batch_loop env now bs total_result m = (Return t, m')"
    and "zero_only_last bs" and "distinct (concat (map snd bs))" and "cache_ok m"
    and "p \<in> set (concat (map snd bs))" and "farmable env m p" and "\<not> in_backoff now m p"
  shows "covered m' p"
  using assms
proof (induction bs arbitrary: total_result m)
  case Nil
  then show ?case by simp
next
  case (Cons b bs)
  obtain k batch where b: "b = (k, batch)" by (cases b)
  obtain o2 m2 where run: "run_batch env now batch m = (o2, m2)" by (cases "run_batch env now batch m")
  have d: "distinct batch" using Cons.prems(3) b by simp
  have ds: "\<forall>b \<in> set bs. distinct (snd b)"
    using Cons.prems(3) distinct_concat_mem [of "map snd bs"] by auto
  obtain br where ret: "o2 = Return br"
    using Cons.prems(1) unfolding b batch_loop_Cons run by (cases o2) simp_all
  have run': "run_batch env now batch m = (Return br, m2)" using run ret by simp
  have cfg: "same_config m m2" using run_batch_config [OF d run] .
  have en: "refreshing_enabled m2" using cfg Cons.prems(6) by (simp add: same_config_def farmable_def)
  define total1 where "total1 = total_result\<lparr>loaded := loaded total_result @ loaded br,
                       processed := processed total_result + processed br\<rparr>"
  have rest: "(if k = 0 then (Return total1, m2) else batch_loop env now bs total1 m2) = (Return t, m')"
    using Cons.prems(1) en unfolding b batch_loop_Cons run ret total1_def
    by (auto simp: Let_def split: option.splits if_splits)
  show ?case
  proof (cases "p \<in> set batch")
    case True
    have cov: "covered m2 p"
      using run_batch_covers [OF d Cons.prems(4) run' True Cons.prems(6,7)] .
    show ?thesis
    proof (cases "k = 0")
      case True
      then show ?thesis using rest cov by simp
    next
      case False
      then have "batch_loop env now bs total1 m2 = (Return t, m')" using rest by simp
      then have "entries_grow m2 m' \<and> published m2 \<subseteq> published m'"
        using ds by (rule batch_loop_grow)
      then show ?thesis using cov covered_grow by blast
    qed
  next
    case False
    then have pin: "p \<in> set (concat (map snd bs))" using Cons.prems(5) b by simp
    have "k \<noteq> 0"
    proof
      assume "k = 0"
      then have "bs = []" using Cons.prems(2) b zero_only_last_zero by blast
      then show False using pin by simp
    qed
    then have loop: "batch_loop env now bs total1 m2 = (Return t, m')" using rest by simp
    have un: "map_of (data (cache m2)) p = map_of (data (cache m)) p \<and>
         map_of (failed_to_open_filenames m2) p = map_of (failed_to_open_filenames m) p"
      using run_batch_untouched [OF d run' False] .
    have f2: "farmable env m2 p" using farmable_cong [OF cfg] un Cons.prems(6) by simp
    have b2: "\<not> in_backoff now m2 p" using in_backoff_cong [OF cfg] un Cons.prems(7) by simp
    have c2: "cache_ok m2" using run_batch_cache_ok [OF d Cons.prems(4) run] .
    have z2: "zero_only_last bs" using Cons.prems(2) zero_only_last_tail by blast
    have d2: "distinct (concat (map snd bs))" using Cons.prems(3) by simp
    show ?thesis using Cons.IH [OF loop z2 d2 c2 pin f2 b2] .
  qed
qed

section \<open>Dropping what is no longer listed\<close>

lemma map_of_del_keys:
  "map_of (del_keys ks xs) k = (if k \<in> set ks then None else map_of xs k)"
  unfolding del_keys_def by (induction ks arbitrary: xs) (auto simp: AList.delete_conv')

lemma distinct_del_keys:
  "distinct (map fst xs) \<Longrightarrow> distinct (map fst (del_keys ks xs))"
  unfolding del_keys_def by (induction ks arbitrary: xs) (auto simp: AList.distinct_delete)

lemma del_keys_Nil [simp]: "del_keys [] xs = xs"
  by (simp add: del_keys_def)

lemma del_keys_Cons: "del_keys (k # ks) xs = del_keys ks (AList.delete k xs)"
  by (simp add: del_keys_def)

lemma remaining_paths_eq:
  "filter (\<lambda>p. p \<notin> set (filter (\<lambda>p. Path p n \<notin> P) ds)) ds = filter (\<lambda>p. Path p n \<in> P) ds"
  by (rule filter_cong) auto

lemma remaining_paths_eq':
  "filter (\<lambda>p. p \<in> set ds \<longrightarrow> Path p n \<in> P) ds = filter (\<lambda>p. Path p n \<in> P) ds"
  by (rule filter_cong) auto

lemma drop_missing_eq:
  "drop_missing P reg pl rm =
     (map fst (filter (\<lambda>(n, e). Path (fst e) n \<notin> set P) reg),
      map (\<lambda>(n, e). (n, if Path (fst e) n \<notin> set P then e
                         else (fst e, filter (\<lambda>d. Path d n \<in> set P) (snd e)))) reg,
      del_keys (map (\<lambda>(n, e). Path (fst e) n) (filter (\<lambda>(n, e). Path (fst e) n \<notin> set P) reg)) pl,
      rm @ concat (map (\<lambda>(n, e). if Path (fst e) n \<notin> set P then [Path (fst e) n]
                                  else map (\<lambda>d. Path d n) (filter (\<lambda>d. Path d n \<notin> set P) (snd e)))
                     reg))"
proof (induction reg arbitrary: pl rm)
  case Nil
  show ?case by simp
next
  case (Cons x reg)
  obtain n d ds where x: "x = (n, (d, ds))" by (cases x) auto
  show ?case
  proof (cases "Path d n \<in> set P")
    case True
    then show ?thesis unfolding x by (simp add: Cons.IH Let_def remaining_paths_eq remaining_paths_eq')
  next
    case False
    then show ?thesis unfolding x by (simp add: Cons.IH Let_def del_keys_Cons)
  qed
qed

text \<open>The registry and the plot map after the removal phase of a cycle.\<close>

lemma removal_entry:
  assumes "drop_missing P reg pl rm = (filenames_to_remove, entries, pl1, rm1)"
    and "distinct (map fst reg)"
  shows "map_of (del_keys filenames_to_remove entries) n =
           (case map_of reg n of
              None \<Rightarrow> None
            | Some (d, ds) \<Rightarrow>
                if Path d n \<in> set P then Some (d, filter (\<lambda>d'. Path d' n \<in> set P) ds) else None)"
proof -
  let ?f = "\<lambda>n e. if Path (fst e) n \<notin> set P then e
                         else (fst e, filter (\<lambda>d. Path d n \<in> set P) (snd e))"
  have rem: "filenames_to_remove = map fst (filter (\<lambda>(n, e). Path (fst e) n \<notin> set P) reg)"
    and ent: "entries = map (\<lambda>(n, e). (n, ?f n e)) reg"
    using assms(1) unfolding drop_missing_eq by simp_all
  have look: "map_of entries n = map_option (?f n) (map_of reg n)"
    unfolding ent by (rule map_of_map_value)
  show ?thesis
  proof (cases "map_of reg n")
    case None
    then show ?thesis using look by (simp add: map_of_del_keys)
  next
    case (Some e)
    obtain d ds where e: "e = (d, ds)" by (cases e)
    have mem: "(n, (d, ds)) \<in> set reg" using Some e by (simp add: map_of_SomeD)
    show ?thesis
    proof (cases "Path d n \<in> set P")
      case True
      have "n \<notin> set filenames_to_remove"
      proof
        assume "n \<in> set filenames_to_remove"
        then obtain e' where "(n, e') \<in> set reg" "Path (fst e') n \<notin> set P"
          unfolding rem by auto
        then have "e' = e" using distinct_map_of_mem [OF assms(2) Some] by blast
        then show False using \<open>Path (fst e') n \<notin> set P\<close> e True by simp
      qed
      then show ?thesis using look Some e True by (simp add: map_of_del_keys)
    next
      case False
      then have "n \<in> set filenames_to_remove" unfolding rem using mem by force
      then show ?thesis using Some e False by (simp add: map_of_del_keys)
    qed
  qed
qed

lemma Cache_save_data:
  "\<exists>c1. Cache_save env c = Inr c1 \<and> data c1 = data c"
  by (auto simp: Cache_save_def Cache_save_try_def Let_def split: sum.splits option.splits)

lemma refresh_cycle_eq:
  "refresh_cycle env now m =
     (case get_plot_filenames env of
        Inl e \<Rightarrow> (Raise e, m)
      | Inr plot_filenames \<Rightarrow>
          (case refresh_callback env Started
                  (PlotRefreshResult_init\<lparr>remaining := length (concat (map snd plot_filenames))\<rparr>) of
             Some e \<Rightarrow> (Raise e, m)
           | None \<Rightarrow>
               (case drop_unlisted (concat (map snd plot_filenames)) m of
                  (rm, m2) \<Rightarrow>
                    (case list_to_batches (concat (map snd plot_filenames))
                            (batch_size (refresh_parameter m2)) of
                       Inl e \<Rightarrow> (Raise e, m2)
                     | Inr batches \<Rightarrow>
                         (case batch_loop env now batches (PlotRefreshResult_init\<lparr>removed := rm\<rparr>) m2 of
                            (Raise e, m3) \<Rightarrow> (Raise e, m3)
                          | (Return total1, m3) \<Rightarrow>
                              (case (if refreshing_enabled m3
                                     then refresh_callback env Done total1 else None) of
                                 Some e \<Rightarrow> (Raise e, m3)
                               | None \<Rightarrow> (Return total1, end_of_cycle env now m3)))))))"
proof (cases "get_plot_filenames env")
  case (Inl e)
  then show ?thesis by (simp add: refresh_cycle_def)
next
  case (Inr plot_filenames)
  let ?P = "concat (map snd plot_filenames)"
  show ?thesis
  proof (cases "refresh_callback env Started (PlotRefreshResult_init\<lparr>remaining := length ?P\<rparr>)")
    case (Some e)
    then show ?thesis using Inr by (simp add: refresh_cycle_def)
  next
    case None
    let ?m1 = "m\<lparr>failed_to_open_filenames :=
                    del_keys (filter (\<lambda>p. p \<notin> set ?P) (map fst (failed_to_open_filenames m)))
                      (failed_to_open_filenames m),
                  no_key_filenames := {p \<in> no_key_filenames m. p \<in> set ?P}\<rparr>"
    obtain filenames_to_remove entries pl rm where
      dm: "drop_missing ?P (plot_filename_paths m) (plots m) [] = (filenames_to_remove, entries, pl, rm)"
      by (cases "drop_missing ?P (plot_filename_paths m) (plots m) []") auto
    let ?m2 = "?m1\<lparr>plots := pl, plot_filename_paths := del_keys filenames_to_remove entries\<rparr>"
    have du: "drop_unlisted ?P m = (rm, ?m2)" using dm by (simp add: drop_unlisted_def)
    show ?thesis
    proof (cases "list_to_batches ?P (batch_size (refresh_parameter m))")
      case (Inl e)
      then show ?thesis using Inr None dm du by (simp add: refresh_cycle_def)
    next
      case bs: (Inr batches)
      obtain o3 m3 where bl: "batch_loop env now batches (PlotRefreshResult_init\<lparr>removed := rm\<rparr>) ?m2 = (o3, m3)"
        by (cases "batch_loop env now batches (PlotRefreshResult_init\<lparr>removed := rm\<rparr>) ?m2")
      show ?thesis
      proof (cases o3)
        case (Raise e)
        then show ?thesis using Inr None dm du bs bl by (simp add: refresh_cycle_def)
      next
        case (Return total1)
        show ?thesis
        proof (cases "if refreshing_enabled m3 then refresh_callback env Done total1 else None")
          case (Some e)
          then show ?thesis using Inr None dm du bs bl Return by (simp add: refresh_cycle_def)
        next
          case fin: None
          show ?thesis
          proof (cases "changed (cleanup_cache now (plots m3) (cache m3))")
            case True
            obtain c1 where c1: "Cache_save env (cleanup_cache now (plots m3) (cache m3)) = Inr c1"
              using Cache_save_data [of env] by blast
            have "end_of_cycle env now m3
                = m3\<lparr>initial := False, cache := c1, last_refresh_time := now\<rparr>"
              using c1 True by (simp add: end_of_cycle_def Let_def)
            then show ?thesis using Inr None dm du bs bl Return fin c1 True
              by (simp add: refresh_cycle_def Let_def)
          next
            case False
            have "end_of_cycle env now m3
                = m3\<lparr>initial := False, cache := cleanup_cache now (plots m3) (cache m3),
                     last_refresh_time := now\<rparr>"
              using False by (simp add: end_of_cycle_def Let_def)
            then show ?thesis using Inr None dm du bs bl Return fin False
              by (simp add: refresh_cycle_def Let_def)
          qed
        qed
      qed
    qed
  qed
qed

section \<open>The end of a cycle\<close>

lemma distinct_Cache_remove:
  "distinct (map fst (data c)) \<Longrightarrow> distinct (map fst (data (Cache_remove ks c)))"
  by (induction ks arbitrary: c) (auto simp: AList.distinct_delete)

lemma cleanup_cache_entry:
  assumes "map_of (data (cleanup_cache now pl c)) p = Some e'"
  shows "\<exists>e. map_of (data c) p = Some e \<and> prover e' = prover e \<and> keys e' = keys e"
proof -
  let ?rp = "map fst (filter (\<lambda>(p, e). expired now e expiry_seconds \<and> p \<notin> dom (map_of pl))
                        (data c))"
  let ?items = "map (\<lambda>(p, e). (p, if p \<in> dom (map_of pl) then bump_last_use now e else e))
                  (data c)"
  have look: "map_of (data (cleanup_cache now pl c)) p
                = (if p \<in> set ?rp then None else map_of ?items p)"
    by (simp add: cleanup_cache_def cleanup_loop_eq map_of_Cache_remove)
  have items: "map_of ?items p
                 = map_option (\<lambda>e. if p \<in> dom (map_of pl) then bump_last_use now e else e)
                     (map_of (data c) p)"
    by (rule map_of_map_value)
  from assms look have "map_of ?items p = Some e'" by (simp split: if_splits)
  then obtain e where e: "map_of (data c) p = Some e"
    and e': "e' = (if p \<in> dom (map_of pl) then bump_last_use now e else e)"
    unfolding items by auto
  show ?thesis using e e' by (auto simp: bump_last_use_def)
qed

lemma cleanup_cache_distinct:
  assumes "distinct (map fst (data c))"
  shows "distinct (map fst (data (cleanup_cache now pl c)))"
proof -
  let ?items = "map (\<lambda>(p, e). (p, if p \<in> dom (map_of pl) then bump_last_use now e else e)) (data c)"
  have a: "map fst ?items = map fst (data c)"
    by (rule map_fst_map_value)
  have b: "data (c\<lparr>data := ?items\<rparr>) = ?items" by simp
  have "distinct (map fst (data (c\<lparr>data := ?items\<rparr>)))" unfolding b a using assms .
  then have "distinct (map fst (data (Cache_remove ks (c\<lparr>data := ?items\<rparr>))))" for ks
    by (rule distinct_Cache_remove)
  then show ?thesis
    by (simp only: cleanup_cache_def cleanup_loop_eq prod.case)
qed

lemma end_of_cycle_data:
  "data (cache (end_of_cycle env now m)) = data (cleanup_cache now (plots m) (cache m))"
proof (cases "changed (cleanup_cache now (plots m) (cache m))")
  case True
  obtain c1 where "Cache_save env (cleanup_cache now (plots m) (cache m)) = Inr c1"
    and "data c1 = data (cleanup_cache now (plots m) (cache m))"
    using Cache_save_data [of env] by blast
  then show ?thesis using True by (simp add: end_of_cycle_def Let_def)
next
  case False
  then show ?thesis by (simp add: end_of_cycle_def Let_def)
qed

lemma end_of_cycle_fields:
  "plots (end_of_cycle env now m) = plots m \<and>
   plot_filename_paths (end_of_cycle env now m) = plot_filename_paths m \<and>
   failed_to_open_filenames (end_of_cycle env now m) = failed_to_open_filenames m \<and>
   same_config m (end_of_cycle env now m)"
proof (cases "changed (cleanup_cache now (plots m) (cache m))")
  case True
  obtain c1 where "Cache_save env (cleanup_cache now (plots m) (cache m)) = Inr c1"
    using Cache_save_data [of env] by blast
  then show ?thesis using True by (simp add: end_of_cycle_def Let_def same_config_def)
next
  case False
  then show ?thesis by (simp add: end_of_cycle_def Let_def same_config_def)
qed

lemma end_of_cycle_cache_ok:
  assumes "cache_ok m"
  shows "cache_ok (end_of_cycle env now m)"
  unfolding cache_ok_def end_of_cycle_data
proof (intro conjI allI impI)
  show "distinct (map fst (data (cleanup_cache now (plots m) (cache m))))"
    using assms by (intro cleanup_cache_distinct) (simp add: cache_ok_def)
next
  fix p e
  assume "map_of (data (cleanup_cache now (plots m) (cache m))) p = Some e"
  then obtain e0 where "map_of (data (cache m)) p = Some e0" "prover e = prover e0"
    using cleanup_cache_entry by blast
  then show "get_filename (prover e) = p" using assms unfolding cache_ok_def by auto
qed

lemma end_of_cycle_cache_fresh:
  assumes "cache_fresh env m"
  shows "cache_fresh env (end_of_cycle env now m)"
  unfolding cache_fresh_def end_of_cycle_data
proof (intro allI impI)
  fix p e k
  assume "map_of (data (cleanup_cache now (plots m) (cache m))) p = Some e"
    and k: "decoded_keys env p = Some k"
  then obtain e0 where "map_of (data (cache m)) p = Some e0" "keys e = keys e0"
    using cleanup_cache_entry by blast
  then show "keys e = k" using assms k unfolding cache_fresh_def by auto
qed

lemma end_of_cycle_registry:
  "registry_ok_with R (end_of_cycle env now m) = registry_ok_with R m"
  "covered (end_of_cycle env now m) p = covered m p"
  "published (end_of_cycle env now m) = published m"
  using end_of_cycle_fields [of env now m]
  by (simp_all add: registry_ok_with_def covered_def recorded_def entry_of_def published_def)

section \<open>The removal phase\<close>

lemma dom_del_keys: "dom (map_of (del_keys ks xs)) = dom (map_of xs) - set ks"
  by (auto simp: map_of_del_keys dom_def)

lemma drop_unlisted_facts:
  assumes "drop_unlisted P m = (rm, m2)" and "distinct (map fst (plot_filename_paths m))"
  shows "cache m2 = cache m" and "same_config m m2"
    and "entry_of m2 n =
           (case entry_of m n of
              None \<Rightarrow> None
            | Some (d, ds) \<Rightarrow>
                if Path d n \<in> set P then Some (d, filter (\<lambda>d'. Path d' n \<in> set P) ds) else None)"
    and "distinct (map fst (plot_filename_paths m2))"
    and "published m2 = published m -
           {q. \<exists>n e. (n, e) \<in> set (plot_filename_paths m) \<and> q = Path (fst e) n \<and> q \<notin> set P}"
    and "p \<in> set P \<Longrightarrow> map_of (failed_to_open_filenames m2) p = map_of (failed_to_open_filenames m) p"
proof -
  obtain filenames_to_remove entries pl rm' where
    dm: "drop_missing P (plot_filename_paths m) (plots m) [] = (filenames_to_remove, entries, pl, rm')"
    by (cases "drop_missing P (plot_filename_paths m) (plots m) []") auto
  have m2: "m2 = m\<lparr>failed_to_open_filenames :=
                    del_keys (filter (\<lambda>p. p \<notin> set P) (map fst (failed_to_open_filenames m)))
                      (failed_to_open_filenames m),
                  no_key_filenames := {p \<in> no_key_filenames m. p \<in> set P},
                  plots := pl, plot_filename_paths := del_keys filenames_to_remove entries\<rparr>"
    using assms(1) dm by (simp add: drop_unlisted_def)
  show "cache m2 = cache m" unfolding m2 by simp
  show "same_config m m2" unfolding m2 by (simp add: same_config_def)
  show "entry_of m2 n =
           (case entry_of m n of
              None \<Rightarrow> None
            | Some (d, ds) \<Rightarrow>
                if Path d n \<in> set P then Some (d, filter (\<lambda>d'. Path d' n \<in> set P) ds) else None)"
    using removal_entry [OF dm assms(2), of n] unfolding m2 by (simp add: entry_of_def)
  have "entries = map (\<lambda>(n, e). (n, if Path (fst e) n \<notin> set P then e
                         else (fst e, filter (\<lambda>d. Path d n \<in> set P) (snd e)))) (plot_filename_paths m)"
    using dm unfolding drop_missing_eq by simp
  then have ent: "map fst entries = map fst (plot_filename_paths m)"
    by (simp only: map_fst_map_value)
  show "distinct (map fst (plot_filename_paths m2))"
    unfolding m2 using assms(2) ent by (simp add: distinct_del_keys)
  have pl: "pl = del_keys (map (\<lambda>(n, e). Path (fst e) n)
                 (filter (\<lambda>(n, e). Path (fst e) n \<notin> set P) (plot_filename_paths m))) (plots m)"
    using dm unfolding drop_missing_eq by simp
  show "published m2 = published m -
           {q. \<exists>n e. (n, e) \<in> set (plot_filename_paths m) \<and> q = Path (fst e) n \<and> q \<notin> set P}"
  proof -
    have gone: "set (map (\<lambda>(n, e). Path (fst e) n)
                 (filter (\<lambda>(n, e). Path (fst e) n \<notin> set P) (plot_filename_paths m)))
        = {q. \<exists>n e. (n, e) \<in> set (plot_filename_paths m) \<and> q = Path (fst e) n \<and> q \<notin> set P}"
      by force
    have "published m2 = dom (map_of pl)" unfolding m2 by (simp add: published_def)
    then show ?thesis unfolding pl dom_del_keys gone by (simp add: published_def)
  qed
  show "map_of (failed_to_open_filenames m2) p = map_of (failed_to_open_filenames m) p" if "p \<in> set P"
    unfolding m2 using that by (simp add: map_of_del_keys)
qed

lemma drop_unlisted_registry_ok:
  assumes "drop_unlisted P m = (rm, m2)" and "registry_ok m"
  shows "registry_ok m2"
proof -
  have ok: "registry_ok_with {} m" using assms(2) by (simp add: registry_ok_def)
  have d: "distinct (map fst (plot_filename_paths m))" using regD1 [OF ok] .
  note facts = drop_unlisted_facts [OF assms(1) d]
  have pub: "q \<in> published m2 \<longleftrightarrow> q \<in> published m \<and>
      \<not> (\<exists>n e. (n, e) \<in> set (plot_filename_paths m) \<and> q = Path (fst e) n \<and> q \<notin> set P)" for q
    unfolding facts(5) by blast
  have 2: "\<exists>ds. entry_of m2 (name q) = Some (parent q, ds)" if q: "q \<in> published m2" for q
  proof -
    from q have qm: "q \<in> published m" using pub by blast
    then obtain ds where e: "entry_of m (name q) = Some (parent q, ds)" using regD2 [OF ok] by blast
    then have mem: "(name q, (parent q, ds)) \<in> set (plot_filename_paths m)"
      by (simp add: entry_of_def map_of_SomeD)
    have pq: "Path (parent q) (name q) = q" by (cases q) simp
    have "q \<in> set P"
    proof (rule ccontr)
      assume "q \<notin> set P"
      then have "\<exists>n e. (n, e) \<in> set (plot_filename_paths m) \<and> q = Path (fst e) n \<and> q \<notin> set P"
        using mem pq by force
      then show False using q pub by blast
    qed
    then show ?thesis unfolding facts(3) [of "name q"] e using pq by simp
  qed
  have 3: "Path d n \<in> published m2 \<and> d \<notin> set ds'" if e2: "entry_of m2 n = Some (d, ds')" for n d ds'
  proof -
    from e2 obtain ds where e: "entry_of m n = Some (d, ds)" and inP: "Path d n \<in> set P"
      and ds': "ds' = filter (\<lambda>d'. Path d' n \<in> set P) ds"
      unfolding facts(3) [of n] by (auto split: option.splits if_splits)
    have "Path d n \<in> published m" and "d \<notin> set ds" using regD3 [OF ok e] by auto
    then show ?thesis using inP ds' pub by auto
  qed
  show ?thesis
    unfolding registry_ok_def registry_ok_with_def using facts(4) 2 3 by blast
qed

lemma drop_unlisted_within:
  assumes "drop_unlisted P m = (rm, m2)" and "distinct (map fst (plot_filename_paths m))"
  shows "registry_within (set P) m2"
  unfolding registry_within_def
proof (intro allI impI)
  fix n d ds'
  assume "entry_of m2 n = Some (d, ds')"
  then show "Path d n \<in> set P \<and> (\<forall>d'\<in>set ds'. Path d' n \<in> set P)"
    unfolding drop_unlisted_facts(3) [OF assms, of n] by (auto split: option.splits if_splits)
qed

section \<open>A whole cycle\<close>

lemma drop_unlisted_cache:
  "drop_unlisted P m = (rm, m2) \<Longrightarrow> cache m2 = cache m"
  by (auto simp: drop_unlisted_def Let_def split: prod.splits)

lemma refresh_cycle_Return:
  assumes "refresh_cycle env now m = (Return t, m')"
  obtains listing rm m2 bs m3 where
    "get_plot_filenames env = Inr listing"
    "drop_unlisted (concat (map snd listing)) m = (rm, m2)"
    "list_to_batches (concat (map snd listing)) (batch_size (refresh_parameter m2)) = Inr bs"
    "batch_loop env now bs (PlotRefreshResult_init\<lparr>removed := rm\<rparr>) m2 = (Return t, m3)"
    "m' = end_of_cycle env now m3"
  using assms unfolding refresh_cycle_eq
  by (auto split: sum.splits option.splits prod.splits outcome.splits if_splits)

lemma refresh_cycle_state:
  assumes "refresh_cycle env now m = (out, m')"
  shows "m' = m \<or>
    (\<exists>listing rm m2. get_plot_filenames env = Inr listing \<and>
       drop_unlisted (concat (map snd listing)) m = (rm, m2) \<and>
       (m' = m2 \<or>
        (\<exists>bs total o3 m3.
           list_to_batches (concat (map snd listing)) (batch_size (refresh_parameter m2)) = Inr bs \<and>
           batch_loop env now bs total m2 = (o3, m3) \<and>
           (m' = m3 \<or> m' = end_of_cycle env now m3))))"
  using assms unfolding refresh_cycle_eq
  by (auto split: sum.splits option.splits prod.splits outcome.splits if_splits)

lemma batches_distinct:
  assumes "list_to_batches P batch_sz = Inr bs" and "distinct P"
  shows "\<forall>b \<in> set bs. distinct (snd b)"
proof
  fix b
  assume "b \<in> set bs"
  then have "snd b \<in> set (map snd bs)" by simp
  moreover have "distinct (concat (map snd bs))"
    using list_to_batches_concat [OF assms(1)] assms(2) by simp
  ultimately show "distinct (snd b)" by (rule distinct_concat_mem [rotated])
qed

lemma listing_ok_paths:
  "listing_ok env \<Longrightarrow> get_plot_filenames env = Inr listing \<Longrightarrow> distinct (concat (map snd listing))"
  by (simp add: listing_ok_def plot_paths_of_def)

lemma batch_loop_cache_ok:
  assumes "batch_loop env now bs total_result m = (out, m')"
    and "\<forall>b \<in> set bs. distinct (snd b)" and "cache_ok m"
  shows "cache_ok m'"
  using assms by (rule batch_loop_keeps) (rule run_batch_cache_ok)

lemma batch_loop_config:
  assumes "batch_loop env now bs total_result m = (out, m')"
    and "\<forall>b \<in> set bs. distinct (snd b)"
  shows "same_config m m'"
proof (rule batch_loop_keeps [OF assms, where Q = "same_config m"])
  show "same_config m m" by simp
next
  fix batch x out m2
  assume "distinct batch" and "same_config m x" and "run_batch env now batch x = (out, m2)"
  then show "same_config m m2" using run_batch_config same_config_trans by blast
qed

lemma batch_loop_invariant:
  assumes "batch_loop env now bs total_result m = (Return t, m')"
    and "\<forall>b \<in> set bs. distinct (snd b)" and "registry_ok m \<and> cache_ok m"
  shows "registry_ok m' \<and> cache_ok m'"
proof (rule batch_loop_keeps_Return [OF assms(1,2), where Q = "\<lambda>x. registry_ok x \<and> cache_ok x"])
  show "registry_ok m \<and> cache_ok m" using assms(3) .
next
  fix batch x r m2
  assume d: "distinct batch" and q: "registry_ok x \<and> cache_ok x"
    and run: "run_batch env now batch x = (Return r, m2)"
  show "registry_ok m2 \<and> cache_ok m2"
    using run_batch_registry_ok [OF d _ _ run] run_batch_cache_ok [OF d _ run] q by blast
qed

lemma refresh_cycle_cache_ok:
  assumes "refresh_cycle env now m = (out, m')" and "listing_ok env" and "cache_ok m"
  shows "cache_ok m'"
proof -
  from refresh_cycle_state [OF assms(1)] consider "m' = m"
    | listing rm m2 where "get_plot_filenames env = Inr listing"
        "drop_unlisted (concat (map snd listing)) m = (rm, m2)" "m' = m2"
    | listing rm m2 bs total o3 m3 where "get_plot_filenames env = Inr listing"
        "drop_unlisted (concat (map snd listing)) m = (rm, m2)"
        "list_to_batches (concat (map snd listing)) (batch_size (refresh_parameter m2)) = Inr bs"
        "batch_loop env now bs total m2 = (o3, m3)" "m' = m3 \<or> m' = end_of_cycle env now m3"
    by blast
  then show ?thesis
  proof cases
    case 1
    then show ?thesis using assms(3) by simp
  next
    case 2
    have "cache m2 = cache m" using 2(2) by (rule drop_unlisted_cache)
    then show ?thesis using assms(3) 2(3) by (simp add: cache_ok_def)
  next
    case 3
    have "cache m2 = cache m" using 3(2) by (rule drop_unlisted_cache)
    then have c2: "cache_ok m2" using assms(3) by (simp add: cache_ok_def)
    have d: "\<forall>b \<in> set bs. distinct (snd b)"
      using batches_distinct [OF 3(3) listing_ok_paths [OF assms(2) 3(1)]] .
    have "cache_ok m3" using batch_loop_cache_ok [OF 3(4) d c2] .
    then show ?thesis using 3(5) end_of_cycle_cache_ok by blast
  qed
qed

lemma refresh_cycle_invariant:
  assumes "refresh_cycle env now m = (Return t, m')" and "listing_ok env"
    and "registry_ok m" and "cache_ok m"
  shows "registry_ok m' \<and> cache_ok m'"
proof -
  from assms(1) obtain listing rm m2 bs m3 where
    ls: "get_plot_filenames env = Inr listing"
    and du: "drop_unlisted (concat (map snd listing)) m = (rm, m2)"
    and lb: "list_to_batches (concat (map snd listing)) (batch_size (refresh_parameter m2)) = Inr bs"
    and bl: "batch_loop env now bs (PlotRefreshResult_init\<lparr>removed := rm\<rparr>) m2 = (Return t, m3)"
    and m': "m' = end_of_cycle env now m3"
    by (rule refresh_cycle_Return)
  have "cache m2 = cache m" using du by (rule drop_unlisted_cache)
  then have c2: "cache_ok m2" using assms(4) by (simp add: cache_ok_def)
  have r2: "registry_ok m2" using drop_unlisted_registry_ok [OF du assms(3)] .
  have d: "\<forall>b \<in> set bs. distinct (snd b)"
    using batches_distinct [OF lb listing_ok_paths [OF assms(2) ls]] .
  have "registry_ok m3 \<and> cache_ok m3" using batch_loop_invariant [OF bl d] r2 c2 by blast
  then show ?thesis unfolding m' registry_ok_def
    by (simp add: end_of_cycle_registry end_of_cycle_cache_ok)
qed

lemma refresh_cycle_covers:
  assumes "refresh_cycle env now m = (Return t, m')" and "listing_ok env"
    and "registry_ok m" and "cache_ok m"
    and "p \<in> set (plot_paths_of env)" and "farmable env m p" and "\<not> in_backoff now m p"
  shows "covered m' p"
proof -
  from assms(1) obtain listing rm m2 bs m3 where
    ls: "get_plot_filenames env = Inr listing"
    and du: "drop_unlisted (concat (map snd listing)) m = (rm, m2)"
    and lb: "list_to_batches (concat (map snd listing)) (batch_size (refresh_parameter m2)) = Inr bs"
    and bl: "batch_loop env now bs (PlotRefreshResult_init\<lparr>removed := rm\<rparr>) m2 = (Return t, m3)"
    and m': "m' = end_of_cycle env now m3"
    by (rule refresh_cycle_Return)
  let ?P = "concat (map snd listing)"
  have pP: "p \<in> set ?P" using assms(5) ls by (simp add: plot_paths_of_def)
  have dP: "distinct ?P" using listing_ok_paths [OF assms(2) ls] .
  have dr: "distinct (map fst (plot_filename_paths m))"
    using assms(3) regD1 by (simp add: registry_ok_def)
  note facts = drop_unlisted_facts [OF du dr]
  have c2: "cache_ok m2" using assms(4) facts(1) by (simp add: cache_ok_def)
  have f2: "farmable env m2 p" using farmable_cong [OF facts(2)] facts(1) assms(6) by simp
  have b2: "\<not> in_backoff now m2 p"
    using in_backoff_cong [OF facts(2) facts(6) [OF pP]] assms(7) by simp
  have cc: "concat (map snd bs) = ?P" using list_to_batches_concat [OF lb] .
  have "covered m3 p"
    using batch_loop_covers [OF bl list_to_batches_zero_only_last [OF lb] _ c2 _ f2 b2] cc dP pP
    by simp
  then show ?thesis unfolding m' by (simp add: end_of_cycle_registry)
qed

section \<open>The invariant of the registry\<close>

lemma reset_ok: "registry_ok (reset now m)" "cache_ok (reset now m) = cache_ok m"
  by (simp_all add: registry_ok_def registry_ok_with_def reset_def published_def entry_of_def
      cache_ok_def)

lemma refresh_task_pass_invariant:
  assumes "refresh_task_pass env now m = (r, m1)" and "listing_ok env"
    and "registry_ok m" and "cache_ok m"
  shows "registry_ok m1 \<and> cache_ok m1"
proof (cases "\<not> needs_refresh now m \<and> refreshing_enabled m \<or> \<not> refreshing_enabled m")
  case True
  then have "m1 = m" using assms(1)
    by (auto simp: refresh_task_pass_def refresh_task_try_def)
  then show ?thesis using assms(3,4) by simp
next
  case False
  obtain out m' where cyc: "refresh_cycle env now m = (out, m')"
    by (cases "refresh_cycle env now m")
  have c': "cache_ok m'" using refresh_cycle_cache_ok [OF cyc assms(2,4)] .
  show ?thesis
  proof (cases out)
    case (Return t)
    then have "m1 = m'" using assms(1) False cyc
      by (auto simp: refresh_task_pass_def refresh_task_try_def)
    then show ?thesis using refresh_cycle_invariant [OF _ assms(2,3,4)] cyc Return by simp
  next
    case (Raise e)
    then have "m1 = reset now m'" using assms(1) False cyc
      by (auto simp: refresh_task_pass_def refresh_task_try_def)
    then show ?thesis using c' by (simp add: reset_ok)
  qed
qed

lemma registry_ok_cong:
  "plots m1 = plots m \<Longrightarrow> plot_filename_paths m1 = plot_filename_paths m \<Longrightarrow>
     registry_ok m1 = registry_ok m"
  by (simp add: registry_ok_def registry_ok_with_def published_def entry_of_def)

lemma cache_ok_cong: "cache m1 = cache m \<Longrightarrow> cache_ok m1 = cache_ok m"
  by (simp add: cache_ok_def)

lemma reachable_invariant: "reachable m \<Longrightarrow> registry_ok m \<and> cache_ok m"
proof (induction rule: reachable.induct)
  case (constructed f match open_no_key parameter)
  show ?case
    by (simp add: registry_ok_def registry_ok_with_def PlotManager_init_def published_def
        entry_of_def cache_ok_def Cache_init_def)
next
  case (keys_set m farmer_keys pool_keys)
  have "registry_ok (set_public_keys farmer_keys pool_keys m) = registry_ok m"
    by (rule registry_ok_cong) (simp_all add: set_public_keys_def)
  moreover have "cache_ok (set_public_keys farmer_keys pool_keys m) = cache_ok m"
    by (rule cache_ok_cong) (simp add: set_public_keys_def)
  ultimately show ?case using keys_set.IH by simp
next
  case (triggered m)
  have "registry_ok (trigger_refresh m) = registry_ok m"
    by (rule registry_ok_cong) (simp_all add: trigger_refresh_def)
  moreover have "cache_ok (trigger_refresh m) = cache_ok m"
    by (rule cache_ok_cong) (simp add: trigger_refresh_def)
  ultimately show ?case using triggered.IH by simp
next
  case (started m env m1)
  have "plots m1 = plots m \<and> plot_filename_paths m1 = plot_filename_paths m"
    using started.hyps(2) by (auto simp: start_refreshing_def Let_def split: if_splits sum.splits)
  then have "registry_ok m1 = registry_ok m" using registry_ok_cong by blast
  then show ?case using started.IH started.hyps(3) by simp
next
  case (stopped m)
  have "registry_ok (stop_refreshing m) = registry_ok m"
    by (rule registry_ok_cong) (simp_all add: stop_refreshing_def)
  moreover have "cache_ok (stop_refreshing m) = cache_ok m"
    by (rule cache_ok_cong) (simp add: stop_refreshing_def)
  ultimately show ?case using stopped.IH by simp
next
  case (was_reset m now)
  then show ?case by (simp add: reset_ok)
next
  case (passed m env now r m1)
  then show ?case using refresh_task_pass_invariant by blast
qed

section \<open>What the invariant gives\<close>

lemma published_unique:
  assumes "registry_ok m" and "p \<in> published m" and "q \<in> published m" and "name p = name q"
  shows "p = q"
proof -
  have ok: "registry_ok_with {} m" using assms(1) by (simp add: registry_ok_def)
  obtain ds where 1: "entry_of m (name p) = Some (parent p, ds)" using regD2 [OF ok] assms(2) by blast
  obtain ds' where 2: "entry_of m (name q) = Some (parent q, ds')" using regD2 [OF ok] assms(3) by blast
  have "parent p = parent q" using 1 2 assms(4) by simp
  then show ?thesis using assms(4) by (simp add: path_eq_iff)
qed

lemma recorded_unpublished:
  assumes "registry_ok m" and "recorded m q"
  shows "q \<notin> published m" and "\<exists>p \<in> published m. name p = name q"
proof -
  have ok: "registry_ok_with {} m" using assms(1) by (simp add: registry_ok_def)
  obtain d ds where e: "entry_of m (name q) = Some (d, ds)" and q: "parent q \<in> set ds"
    using assms(2) by (auto simp: recorded_def split: option.splits)
  have l: "Path d (name q) \<in> published m" and nd: "d \<notin> set ds" using regD3 [OF ok e] by auto
  show "q \<notin> published m"
  proof
    assume "q \<in> published m"
    then obtain ds' where "entry_of m (name q) = Some (parent q, ds')" using regD2 [OF ok] by blast
    then show False using e q nd by simp
  qed
  show "\<exists>p \<in> published m. name p = name q"
    using l by (intro bexI [of _ "Path d (name q)"]) simp_all
qed

lemma get_duplicates_recorded:
  assumes "distinct (map fst (plot_filename_paths m))"
  shows "q \<in> set (get_duplicates m) \<longleftrightarrow> recorded m q"
proof
  assume "q \<in> set (get_duplicates m)"
  then obtain n d ds where mem: "(n, (d, ds)) \<in> set (plot_filename_paths m)"
    and q: "q \<in> set (map (\<lambda>p. Path p n) ds)"
    by (auto simp: get_duplicates_def)
  have "entry_of m n = Some (d, ds)" using assms mem by (simp add: entry_of_def)
  then show "recorded m q" using q by (auto simp: recorded_def)
next
  assume "recorded m q"
  then obtain d ds where e: "entry_of m (name q) = Some (d, ds)" and q: "parent q \<in> set ds"
    by (auto simp: recorded_def split: option.splits)
  have mem: "(name q, (d, ds)) \<in> set (plot_filename_paths m)"
    using e by (simp add: entry_of_def map_of_SomeD)
  have "q = Path (parent q) (name q)" by (cases q) simp
  then have "q \<in> set (map (\<lambda>p. Path p (name q)) ds)" using q by force
  then show "q \<in> set (get_duplicates m)" using mem unfolding get_duplicates_def by force
qed

lemma covered_one_published:
  assumes "registry_ok m" and "covered m p"
  shows "\<exists>!q. q \<in> published m \<and> name q = name p"
proof -
  have "\<exists>q. q \<in> published m \<and> name q = name p"
    using assms recorded_unpublished(2) by (auto simp: covered_def)
  then show ?thesis using published_unique [OF assms(1)] by (metis (no_types))
qed
section \<open>One published path for each file name\<close>

lemma reachable_demo: "reachable demo_manager"
proof -
  let ?m0 = "set_public_keys [[1]] [[3]]
        (PlotManager_init (Inl FileNotFoundError) None False demo_parameter)"
  have "reachable ?m0" by (intro reachable.keys_set reachable.constructed)
  moreover have "start_refreshing demo_env ?m0 = Inr demo_manager"
    by (simp add: start_refreshing_def demo_manager_def set_public_keys_def PlotManager_init_def
        Cache_load_def Cache_load_try_def Cache_init_def Let_def)
  moreover have "cache_ok demo_manager" by (simp add: cache_ok_def demo_manager_simps)
  ultimately show ?thesis by (rule reachable.started)
qed

text \<open>A pass of the loop over the first installation, and one over the second.\<close>

lemma demo_pass:
  "fst (refresh_task_pass demo_env 1000 demo_manager) =
     Return (Completed \<lparr>loaded = [PlotInfo \<lparr>get_filename = plot_A, get_size = 32, get_memo = [1, 3]\<rparr>
                                   (Some [3]) None [1] 100 5],
                        removed = [], processed = 3, remaining = 0\<rparr>)"
  by code_simp

lemma demo_pass_plots:
  "map fst (plots (snd (refresh_task_pass demo_env 1000 demo_manager))) = [plot_A]"
  by code_simp

lemma demo_pass_duplicates:
  "get_duplicates (snd (refresh_task_pass demo_env 1000 demo_manager)) = [plot_C]"
  by code_simp

lemma demo_listing: "listing_ok demo_env" "plot_C \<in> set (plot_paths_of demo_env)"
  by code_simp+

lemma demo_farmable: "farmable demo_env demo_manager plot_C"
  by code_simp

lemma demo_no_backoff: "\<not> in_backoff 1000 demo_manager plot_C"
  by (simp add: in_backoff_def demo_manager_simps)

lemma foreign_pass:
  "fst (refresh_task_pass foreign_env 1000 demo_manager) =
     Return (Completed \<lparr>loaded = [], removed = [], processed = 2, remaining = 0\<rparr>)"
  by code_simp

lemma foreign_pass_plots:
  "plots (snd (refresh_task_pass foreign_env 1000 demo_manager)) = []"
  "get_duplicates (snd (refresh_task_pass foreign_env 1000 demo_manager)) = []"
  by code_simp+

lemma foreign_listing: "listing_ok foreign_env"
  by code_simp

text \<open>
  Claim C6, as stated, fails: files of one name in two configured directories do not
  always have one of them published. Before the first cycle has run nothing is published:
  the manager that was just started has an empty plot map although \<open>d1/A.plot\<close> and
  \<open>d2/A.plot\<close> exist. And a completed cycle publishes neither of two files that it does
  not accept: in the second installation \<open>d1/B.plot\<close> and \<open>d2/B.plot\<close> were made for a farmer
  key that is not configured, and after a completed pass the plot map and the duplicate
  lookup are both empty.
\<close>

theorem published_names_unique_counterexample:
  "reachable demo_manager \<and>
   get_plot_filenames demo_env = Inr [(''d1'', [plot_A, plot_B]), (''d2'', [plot_C])] \<and>
   name plot_A = name plot_C \<and> plot_A \<noteq> plot_C \<and>
   plots demo_manager = [] \<and> get_duplicates demo_manager = [] \<and>
   get_plot_filenames foreign_env = Inr [(''d1'', [plot_B]), (''d2'', [plot_D])] \<and>
   name plot_B = name plot_D \<and> plot_B \<noteq> plot_D \<and>
   fst (refresh_task_pass foreign_env 1000 demo_manager)
     = Return (Completed \<lparr>loaded = [], removed = [], processed = 2, remaining = 0\<rparr>) \<and>
   reachable (snd (refresh_task_pass foreign_env 1000 demo_manager)) \<and>
   plots (snd (refresh_task_pass foreign_env 1000 demo_manager)) = [] \<and>
   get_duplicates (snd (refresh_task_pass foreign_env 1000 demo_manager)) = []"
proof -
  have "refresh_task_pass foreign_env 1000 demo_manager
      = (fst (refresh_task_pass foreign_env 1000 demo_manager),
         snd (refresh_task_pass foreign_env 1000 demo_manager))"
    by simp
  then have "reachable (snd (refresh_task_pass foreign_env 1000 demo_manager))"
    by (rule reachable.passed [OF reachable_demo foreign_listing])
  then show ?thesis
    using reachable_demo foreign_pass foreign_pass_plots
    by (simp add: demo_env_def foreign_env_def plot_A_def plot_B_def plot_C_def plot_D_def
        demo_manager_simps get_duplicates_def)
qed

text \<open>
  Claim C6, amended. In every state that the operations of the manager reach from its
  construction: two published paths of the same file name are the same path; and every
  path that the duplicate lookup \<^verbatim>\<open>get_duplicates\<close> returns is not published, its directory
  is in the duplicate set of its file name, and a path of the same file name is
  published. After a pass of the refresh loop that completes a cycle, for every listed
  file \<open>f\<close> that the cycle accepts (refreshing is enabled, the file passes the filter, opens,
  has its full size, its keys pass the key checks, and it is not inside the retry interval
  of an earlier failure): exactly one path of its file name is published, and \<open>f\<close> is either
  that path or is returned by the duplicate lookup, not both.
\<close>

theorem published_names_unique:
  assumes "reachable m"
  shows "(p \<in> published m \<and> q \<in> published m \<and> name p = name q \<longrightarrow> p = q) \<and>
         (q \<in> set (get_duplicates m) \<longrightarrow>
            q \<notin> published m \<and> recorded m q \<and> (\<exists>l \<in> published m. name l = name q)) \<and>
         (listing_ok env \<and> refresh_task_pass env now m = (Return (Completed t), m1) \<and>
          f \<in> set (plot_paths_of env) \<and> farmable env m f \<and> \<not> in_backoff now m f \<longrightarrow>
            (\<exists>!l. l \<in> published m1 \<and> name l = name f) \<and>
            (f \<in> published m1) \<noteq> (f \<in> set (get_duplicates m1)))"
proof (intro conjI impI)
  have inv: "registry_ok m" "cache_ok m" using reachable_invariant [OF assms] by auto
  have d: "distinct (map fst (plot_filename_paths m))"
    using inv(1) regD1 by (simp add: registry_ok_def)
  show "p = q" if "p \<in> published m \<and> q \<in> published m \<and> name p = name q"
    using published_unique [OF inv(1)] that by blast
  {
    assume "q \<in> set (get_duplicates m)"
    then have r: "recorded m q" using get_duplicates_recorded [OF d] by blast
    show "q \<notin> published m" using recorded_unpublished(1) [OF inv(1) r] .
    show "recorded m q" using r .
    show "\<exists>l \<in> published m. name l = name q" using recorded_unpublished(2) [OF inv(1) r] .
  }
  {
    assume a: "listing_ok env \<and> refresh_task_pass env now m = (Return (Completed t), m1) \<and>
          f \<in> set (plot_paths_of env) \<and> farmable env m f \<and> \<not> in_backoff now m f"
    then have cyc: "refresh_cycle env now m = (Return t, m1)"
      by (auto simp: refresh_task_pass_def refresh_task_try_def
          split: if_splits prod.splits outcome.splits)
    have inv1: "registry_ok m1" "cache_ok m1"
      using refresh_cycle_invariant [OF cyc _ inv] a by auto
    have cov: "covered m1 f" using refresh_cycle_covers [OF cyc _ inv] a by blast
    show "\<exists>!l. l \<in> published m1 \<and> name l = name f"
      using covered_one_published [OF inv1(1) cov] .
    have d1: "distinct (map fst (plot_filename_paths m1))"
      using inv1(1) regD1 by (simp add: registry_ok_def)
    show "(f \<in> published m1) \<noteq> (f \<in> set (get_duplicates m1))"
      using cov recorded_unpublished(1) [OF inv1(1), of f] get_duplicates_recorded [OF d1, of f]
      by (auto simp: covered_def)
  }
qed

theorem published_names_unique_witness:
  "plot_A \<in> published (snd (refresh_task_pass demo_env 1000 demo_manager)) \<and>
   plot_C \<notin> published (snd (refresh_task_pass demo_env 1000 demo_manager)) \<and>
   plot_C \<in> set (get_duplicates (snd (refresh_task_pass demo_env 1000 demo_manager))) \<and>
   name plot_A = name plot_C"
proof -
  let ?m1 = "snd (refresh_task_pass demo_env 1000 demo_manager)"
  let ?t = "\<lparr>loaded = [PlotInfo \<lparr>get_filename = plot_A, get_size = 32, get_memo = [1, 3]\<rparr>
                                   (Some [3]) None [1] 100 5],
                        removed = [], processed = 3, remaining = 0\<rparr>"
  have pass: "refresh_task_pass demo_env 1000 demo_manager = (Return (Completed ?t), ?m1)"
    using demo_pass by (simp add: prod_eq_iff)
  have "set (map fst (plots ?m1)) = {plot_A}" unfolding demo_pass_plots by simp
  then have pub: "published ?m1 = {plot_A}"
    by (simp add: published_def dom_map_of_conv_image_fst)
  have "(plot_C \<in> published ?m1) \<noteq> (plot_C \<in> set (get_duplicates ?m1))"
    using published_names_unique [OF reachable_demo, where env = demo_env and now = 1000
        and t = ?t and ?m1.0 = ?m1 and f = plot_C]
      demo_listing pass demo_farmable demo_no_backoff
    by blast
  then show ?thesis
    using pub demo_pass_duplicates by (simp add: plot_A_def plot_C_def)
qed

end
